theory Spec2Isabelle
  imports Main "HOL-Library.Signed_Division"
begin

section \<open>The quadtree image codec of src/img/main.cpp\<close>

text \<open>
  The C++ type \<^verbatim>\<open>int\<close> has 32 bits. A pixel coordinate or a side length is modelled by
  an \<^typ>\<open>int\<close> without overflow: these stay within the dimensions of the grid, and the side
  \<open>PadToSquare\<close> computes is less than twice the larger dimension (proved below). The
  channels of a \<^verbatim>\<open>Color\<close> are \<^verbatim>\<open>int\<close>s that the type does not bound, so the arithmetic of
  \<^verbatim>\<open>isUniform\<close> on them is modelled with the wrap-around of 32-bit two's complement
  arithmetic (\<open>int32\<close>); for channels between 0 and 255, as the image loader produces them,
  nothing wraps (proved below). Reading or writing a \<^verbatim>\<open>std::vector\<close> outside its range is
  undefined behaviour in C++; the model makes it the error value \<open>OutOfRange\<close>. Constructing
  a vector of negative length throws \<^verbatim>\<open>std::length_error\<close>; the model makes it
  \<open>LengthError\<close>. Exhaustion of memory is not modelled. The parameter and variable
  \<^verbatim>\<open>size\<close> of the source is written \<open>sz\<close>.
\<close>

subsection \<open>Colours, grids and images\<close>

record Color =
  r :: int
  g :: int
  b :: int

text \<open>The value-initialised colour \<^verbatim>\<open>Color{}\<close>, which is also \<^verbatim>\<open>{0, 0, 0}\<close>.\<close>

definition black :: Color where
  "black = \<lparr>r = 0, g = 0, b = 0\<rparr>"

datatype error = OutOfRange | LengthError

type_synonym grid = "Color list list"

text \<open>
  The fields \<^verbatim>\<open>w_\<close> and \<^verbatim>\<open>h_\<close> of class \<^verbatim>\<open>Image\<close> are named \<open>w_rec\<close> and \<open>h_rec\<close>
  here (a name cannot end in an underscore).
\<close>

record Image =
  data :: grid
  w_rec :: int
  h_rec :: int

text \<open>\<open>in_grid img x y\<close>: the index expression \<^verbatim>\<open>img[y][x]\<close> is within both vectors.\<close>

definition in_grid :: "grid \<Rightarrow> int \<Rightarrow> int \<Rightarrow> bool" where
  "in_grid img x y \<longleftrightarrow>
     0 \<le> y \<and> y < int (length img) \<and> 0 \<le> x \<and> x < int (length (img ! nat y))"

definition cell :: "grid \<Rightarrow> int \<Rightarrow> int \<Rightarrow> Color" where
  "cell img x y = img ! nat y ! nat x"

text \<open>The read \<^verbatim>\<open>img[y][x]\<close> and the assignment \<^verbatim>\<open>img[y][x] = c\<close>.\<close>

definition read_at :: "grid \<Rightarrow> int \<Rightarrow> int \<Rightarrow> error + Color" where
  "read_at img x y = (if in_grid img x y then Inr (cell img x y) else Inl OutOfRange)"

definition write_at :: "grid \<Rightarrow> int \<Rightarrow> int \<Rightarrow> Color \<Rightarrow> error + grid" where
  "write_at img x y c =
     (if in_grid img x y then Inr (img[nat y := (img ! nat y)[nat x := c]])
      else Inl OutOfRange)"

text \<open>The constructors \<^verbatim>\<open>Image()\<close> and \<^verbatim>\<open>Image(width, height)\<close>.\<close>

definition Image_empty :: Image where
  "Image_empty = \<lparr>data = [], w_rec = 0, h_rec = 0\<rparr>"

definition Image_new :: "int \<Rightarrow> int \<Rightarrow> error + Image" where
  "Image_new width height =
     (if width < 0 \<or> height < 0 then Inl LengthError
      else Inr \<lparr>data = replicate (nat height) (replicate (nat width) black),
                w_rec = width, h_rec = height\<rparr>)"

definition width :: "Image \<Rightarrow> int" where
  "width img = (if data img = [] then 0 else int (length (data img ! 0)))"

definition height :: "Image \<Rightarrow> int" where
  "height img = int (length (data img))"

text \<open>\<^verbatim>\<open>Image::at\<close>, as it is read from and as it is assigned to.\<close>

definition Image_at :: "Image \<Rightarrow> int \<Rightarrow> int \<Rightarrow> error + Color" where
  "Image_at img x y = read_at (data img) x y"

definition Image_put :: "Image \<Rightarrow> int \<Rightarrow> int \<Rightarrow> Color \<Rightarrow> error + Image" where
  "Image_put img x y c =
     (case write_at (data img) x y c of
        Inl e \<Rightarrow> Inl e
      | Inr d \<Rightarrow> Inr (img\<lparr>data := d\<rparr>))"

subsection \<open>Counting loops\<close>

text \<open>
  \<^verbatim>\<open>for (int i = a; i < n; ++i) body\<close> over a state \<open>s\<close>: the body runs for \<open>i = a, a+1, ...\<close>
  while \<open>i < n\<close>, and the first error ends the loop.
\<close>

function for_loop :: "int \<Rightarrow> int \<Rightarrow> (int \<Rightarrow> 's \<Rightarrow> error + 's) \<Rightarrow> 's \<Rightarrow> error + 's" where
  "for_loop i n body s =
     (if i < n then
        (case body i s of
           Inl e \<Rightarrow> Inl e
         | Inr s' \<Rightarrow> for_loop (i + 1) n body s')
      else Inr s)"
  by pat_completeness auto
termination
  by (relation "measure (\<lambda>(i, n, body, s). nat (n - i))") auto

declare for_loop.simps [simp del]

subsection \<open>Resize, IsPowerOfTwo, IsValidImageSize, PadToSquare\<close>

definition Resize :: "Image \<Rightarrow> int \<Rightarrow> int \<Rightarrow> error + Image" where
  "Resize this w h =
     (case Image_new w h of
        Inl e \<Rightarrow> Inl e
      | Inr trimmed \<Rightarrow>
          for_loop 0 h (\<lambda>y. for_loop 0 w (\<lambda>x t.
            if x < w_rec this \<and> y < h_rec this then
              (case Image_at this x y of
                 Inl e \<Rightarrow> Inl e
               | Inr c \<Rightarrow> Image_put t x y c)
            else Image_put t x y black)) trimmed)"

definition IsPowerOfTwo :: "int \<Rightarrow> bool" where
  "IsPowerOfTwo x \<longleftrightarrow> x > 0 \<and> and x (x - 1) = 0"

definition IsValidImageSize :: "Image \<Rightarrow> bool" where
  "IsValidImageSize img \<longleftrightarrow> width img = height img \<and> IsPowerOfTwo (width img)"

text \<open>
  \<^verbatim>\<open>while (size < std::max(w, h)) size *= 2;\<close> with the current \<open>size\<close> as argument. The
  loop does not end when started at 0 below a positive bound, so not returning is the
  value \<open>None\<close>. \<open>PadToSquare\<close> starts it at 1.
\<close>

partial_function (option) grow_size :: "int \<Rightarrow> int \<Rightarrow> int option" where
  "grow_size sz m = (if sz < m then grow_size (sz * 2) m else Some sz)"

declare grow_size.simps [code]

text \<open>
  The result of \<open>PadToSquare\<close> is \<open>None\<close> when the doubling loop does not return, and
  otherwise \<open>Some\<close> of the image or of the error of the copy.
\<close>

definition PadToSquare :: "Image \<Rightarrow> (error + Image) option" where
  "PadToSquare input =
     (let h = height input; w = width input in
      case grow_size 1 (max w h) of
        None \<Rightarrow> None
      | Some sz \<Rightarrow> Some
          (case Image_new sz sz of
             Inl e \<Rightarrow> Inl e
           | Inr padded \<Rightarrow>
               for_loop 0 h (\<lambda>y. for_loop 0 w (\<lambda>x p.
                 case Image_at input x y of
                   Inl e \<Rightarrow> Inl e
                 | Inr c \<Rightarrow> Image_put p x y c)) (padded\<lparr>w_rec := w, h_rec := h\<rparr>)))"

subsection \<open>The quadtree\<close>

text \<open>
  Modelled from the spec: the header \<^verbatim>\<open>quadtree.h\<close> (the class template \<^verbatim>\<open>QuadTree<T>\<close> with
  its subclasses \<^verbatim>\<open>QuadLeaf<T>\<close> and \<^verbatim>\<open>QuadNode<T>\<close>, and the directions \<^verbatim>\<open>NW, NE, SE, SW\<close>)
  is not among the sources. A node is a Leaf holding one value or an Internal node holding
  exactly four owned children, ordered NW, NE, SE, SW; \<^verbatim>\<open>new QuadNode<T>(a, b, c, d)\<close> takes
  the children in that order and \<^verbatim>\<open>son(d)\<close> returns the child at direction \<open>d\<close>.
\<close>

datatype 'a QuadTree =
    QuadLeaf 'a
  | QuadNode "'a QuadTree" "'a QuadTree" "'a QuadTree" "'a QuadTree"

subsection \<open>isUniform, Encode, Decode\<close>

text \<open>
  The value of an integer as a 32-bit two's complement \<^verbatim>\<open>int\<close>: the result of an \<^verbatim>\<open>int\<close>
  operation whose exact result is \<open>k\<close>.
\<close>

definition int32 :: "int \<Rightarrow> int" where
  "int32 k = (k + 2 ^ 31) mod 2 ^ 32 - 2 ^ 31"

text \<open>
  The expression \<^verbatim>\<open>dr * dr + dg * dg + db * db\<close> of \<^verbatim>\<open>isUniform\<close>, with \<^verbatim>\<open>dr = ref.r - c.r\<close>
  and so on, every operation in \<^verbatim>\<open>int\<close>.
\<close>

definition distance32 :: "Color \<Rightarrow> Color \<Rightarrow> int" where
  "distance32 ref c =
     (let dr = int32 (r ref - r c); dg = int32 (g ref - g c); db = int32 (b ref - b c)
      in int32 (int32 (int32 (dr * dr) + int32 (dg * dg)) + int32 (db * db)))"

text \<open>
  The inner loop of \<^verbatim>\<open>isUniform\<close> over \<open>i\<close> in row \<open>j\<close>, up to \<open>n = x + size\<close>: \<open>Inr False\<close>
  is the \<^verbatim>\<open>return false\<close>, \<open>Inr True\<close> is the loop running to its end.
\<close>

function isUniform_cols :: "grid \<Rightarrow> Color \<Rightarrow> int \<Rightarrow> int \<Rightarrow> int \<Rightarrow> int \<Rightarrow> error + bool" where
  "isUniform_cols img ref tolerance j i n =
     (if i < n then
        (case read_at img i j of
           Inl e \<Rightarrow> Inl e
         | Inr c \<Rightarrow>
             if distance32 ref c > int32 (tolerance * tolerance) then Inr False
             else isUniform_cols img ref tolerance j (i + 1) n)
      else Inr True)"
  by pat_completeness auto
termination
  by (relation "measure (\<lambda>(img, ref, tolerance, j, i, n). nat (n - i))") auto

declare isUniform_cols.simps [simp del]

text \<open>The outer loop over \<open>j\<close>, up to \<open>m = y + size\<close>, for the columns \<open>x \<le> i < n\<close>.\<close>

function isUniform_rows ::
  "grid \<Rightarrow> Color \<Rightarrow> int \<Rightarrow> int \<Rightarrow> int \<Rightarrow> int \<Rightarrow> int \<Rightarrow> error + bool" where
  "isUniform_rows img ref tolerance x n j m =
     (if j < m then
        (case isUniform_cols img ref tolerance j x n of
           Inl e \<Rightarrow> Inl e
         | Inr u \<Rightarrow>
             if u then isUniform_rows img ref tolerance x n (j + 1) m
             else Inr False)
      else Inr True)"
  by pat_completeness auto
termination
  by (relation "measure (\<lambda>(img, ref, tolerance, x, n, j, m). nat (m - j))") auto

declare isUniform_rows.simps [simp del]

definition isUniform :: "grid \<Rightarrow> int \<Rightarrow> int \<Rightarrow> int \<Rightarrow> int \<Rightarrow> error + bool" where
  "isUniform img x y sz tolerance =
     (case read_at img x y of
        Inl e \<Rightarrow> Inl e
      | Inr ref \<Rightarrow> isUniform_rows img ref tolerance x (x + sz) y (y + sz))"

lemma isUniform_cols_False_nonempty:
  "isUniform_cols img ref tolerance j i n = Inr False \<Longrightarrow> i < n"
  by (subst (asm) isUniform_cols.simps) (simp split: if_splits)

lemma isUniform_rows_False_nonempty:
  "isUniform_rows img ref tolerance x n j m = Inr False \<Longrightarrow> j < m"
  by (subst (asm) isUniform_rows.simps) (simp split: if_splits)

lemma isUniform_False_positive:
  "isUniform img x y sz tolerance = Inr False \<Longrightarrow> 0 < sz"
  by (auto simp: isUniform_def split: sum.splits dest: isUniform_rows_False_nonempty)

lemma sdiv_2_nonneg: "0 \<le> (k::int) \<Longrightarrow> k sdiv 2 = k div 2"
  by (cases "k = 0") (simp_all add: signed_divide_int_def)

text \<open>
  \<^verbatim>\<open>Encode\<close> calls \<^verbatim>\<open>isUniform(img, x, y, size)\<close>, that is with the default argument
  \<^verbatim>\<open>tolerance = 10\<close>; it has no tolerance parameter of its own.
\<close>

function Encode :: "grid \<Rightarrow> int \<Rightarrow> int \<Rightarrow> int \<Rightarrow> error + Color QuadTree" where
  "Encode img x y sz =
     (case isUniform img x y sz 10 of
        Inl e \<Rightarrow> Inl e
      | Inr u \<Rightarrow>
          if u then
            (case read_at img x y of
               Inl e \<Rightarrow> Inl e
             | Inr c \<Rightarrow> Inr (QuadLeaf c))
          else
            (let half = sz sdiv 2 in
             case Encode img x y half of
               Inl e \<Rightarrow> Inl e
             | Inr nw \<Rightarrow>
            (case Encode img (x + half) y half of
               Inl e \<Rightarrow> Inl e
             | Inr ne \<Rightarrow>
            (case Encode img (x + half) (y + half) half of
               Inl e \<Rightarrow> Inl e
             | Inr se \<Rightarrow>
            (case Encode img x (y + half) half of
               Inl e \<Rightarrow> Inl e
             | Inr sw \<Rightarrow> Inr (QuadNode nw ne se sw))))))"
  by pat_completeness auto
termination
proof (relation "measure (\<lambda>(img, x, y, sz). nat sz)", goal_cases)
  case 1
  show ?case by simp
next
  case (2 img x y sz u half)
  then show ?case by (auto dest!: isUniform_False_positive simp: sdiv_2_nonneg)
next
  case (3 img x y sz u half nw)
  then show ?case by (auto dest!: isUniform_False_positive simp: sdiv_2_nonneg)
next
  case (4 img x y sz u half nw ne)
  then show ?case by (auto dest!: isUniform_False_positive simp: sdiv_2_nonneg)
next
  case (5 img x y sz u half nw ne se)
  then show ?case by (auto dest!: isUniform_False_positive simp: sdiv_2_nonneg)
qed

declare Encode.simps [simp del]

text \<open>
  The encoder of the specification, \<^verbatim>\<open>encode(grid, x, y, size, tolerance = 10)\<close>: \<open>Encode\<close>
  with the tolerance it hands to \<^verbatim>\<open>isUniform\<close> as a parameter instead of the fixed default.
  With tolerance 10 it is \<open>Encode\<close> (proved below as \<open>Encode_tolerance_default\<close>).
\<close>

function Encode_tolerance ::
  "int \<Rightarrow> grid \<Rightarrow> int \<Rightarrow> int \<Rightarrow> int \<Rightarrow> error + Color QuadTree" where
  "Encode_tolerance tolerance img x y sz =
     (case isUniform img x y sz tolerance of
        Inl e \<Rightarrow> Inl e
      | Inr u \<Rightarrow>
          if u then
            (case read_at img x y of
               Inl e \<Rightarrow> Inl e
             | Inr c \<Rightarrow> Inr (QuadLeaf c))
          else
            (let half = sz sdiv 2 in
             case Encode_tolerance tolerance img x y half of
               Inl e \<Rightarrow> Inl e
             | Inr nw \<Rightarrow>
            (case Encode_tolerance tolerance img (x + half) y half of
               Inl e \<Rightarrow> Inl e
             | Inr ne \<Rightarrow>
            (case Encode_tolerance tolerance img (x + half) (y + half) half of
               Inl e \<Rightarrow> Inl e
             | Inr se \<Rightarrow>
            (case Encode_tolerance tolerance img x (y + half) half of
               Inl e \<Rightarrow> Inl e
             | Inr sw \<Rightarrow> Inr (QuadNode nw ne se sw))))))"
  by pat_completeness auto
termination
proof (relation "measure (\<lambda>(tolerance, img, x, y, sz). nat sz)", goal_cases)
  case 1
  show ?case by simp
next
  case (2 tolerance img x y sz u half)
  then show ?case by (auto dest!: isUniform_False_positive simp: sdiv_2_nonneg)
next
  case (3 tolerance img x y sz u half nw)
  then show ?case by (auto dest!: isUniform_False_positive simp: sdiv_2_nonneg)
next
  case (4 tolerance img x y sz u half nw ne)
  then show ?case by (auto dest!: isUniform_False_positive simp: sdiv_2_nonneg)
next
  case (5 tolerance img x y sz u half nw ne se)
  then show ?case by (auto dest!: isUniform_False_positive simp: sdiv_2_nonneg)
qed

declare Encode_tolerance.simps [simp del]

text \<open>
  \<^verbatim>\<open>Decode\<close> updates the target grid in place; the model returns the updated grid. The
  equation for \<open>QuadLeaf\<close> is the branch \<^verbatim>\<open>node->isLeaf()\<close> with \<open>c\<close> the \<^verbatim>\<open>node->value()\<close>, and
  in the other the four children are \<^verbatim>\<open>node->son(NW)\<close>, \<^verbatim>\<open>son(NE)\<close>, \<^verbatim>\<open>son(SE)\<close>, \<^verbatim>\<open>son(SW)\<close>.
\<close>

fun Decode :: "grid \<Rightarrow> Color QuadTree \<Rightarrow> int \<Rightarrow> int \<Rightarrow> int \<Rightarrow> error + grid" where
  "Decode img (QuadLeaf c) x y sz =
     for_loop y (y + sz) (\<lambda>j. for_loop x (x + sz) (\<lambda>i s. write_at s i j c)) img"
| "Decode img (QuadNode nw ne se sw) x y sz =
     (let half = sz sdiv 2 in
      case Decode img nw x y half of
        Inl e \<Rightarrow> Inl e
      | Inr img1 \<Rightarrow>
     (case Decode img1 ne (x + half) y half of
        Inl e \<Rightarrow> Inl e
      | Inr img2 \<Rightarrow>
     (case Decode img2 se (x + half) (y + half) half of
        Inl e \<Rightarrow> Inl e
      | Inr img3 \<Rightarrow> Decode img3 sw x (y + half) half)))"

subsection \<open>Regions\<close>

text \<open>
  The square region of side \<open>sz\<close> at \<open>(x, y)\<close>: \<open>in_region x y sz a c\<close> says that the cell in
  column \<open>a\<close> and row \<open>c\<close> belongs to it, \<open>region_in img x y sz\<close> that every cell of the
  region is a cell of the grid.
\<close>

definition in_region :: "int \<Rightarrow> int \<Rightarrow> int \<Rightarrow> int \<Rightarrow> int \<Rightarrow> bool" where
  "in_region x y sz a c \<longleftrightarrow> x \<le> a \<and> a < x + sz \<and> y \<le> c \<and> c < y + sz"

definition region_in :: "grid \<Rightarrow> int \<Rightarrow> int \<Rightarrow> int \<Rightarrow> bool" where
  "region_in img x y sz \<longleftrightarrow> (\<forall>j\<in>{y..<y + sz}. \<forall>i\<in>{x..<x + sz}. in_grid img i j)"

text \<open>
  \<open>same_outside img img' x y sz\<close>: the grid \<open>img'\<close> has the rows of \<open>img\<close>, with the same
  lengths, and the same cell wherever the cell is outside the region.
\<close>

definition same_outside :: "grid \<Rightarrow> grid \<Rightarrow> int \<Rightarrow> int \<Rightarrow> int \<Rightarrow> bool" where
  "same_outside img img' x y sz \<longleftrightarrow>
     map length img' = map length img \<and>
     (\<forall>a e. in_grid img a e \<longrightarrow> \<not> in_region x y sz a e \<longrightarrow> cell img' a e = cell img a e)"

text \<open>
  \<open>written_alike img1 img2 out1 out2\<close>: two runs, started on \<open>img1\<close> and on \<open>img2\<close>, ended
  with \<open>out1\<close> and with \<open>out2\<close>; every cell either holds the same colour after both runs or
  is in both as it was before.
\<close>

definition written_alike :: "grid \<Rightarrow> grid \<Rightarrow> grid \<Rightarrow> grid \<Rightarrow> bool" where
  "written_alike img1 img2 out1 out2 \<longleftrightarrow>
     (\<forall>a e. in_grid img1 a e \<and> in_grid img2 a e \<longrightarrow>
        cell out1 a e = cell out2 a e \<or>
        (cell out1 a e = cell img1 a e \<and> cell out2 a e = cell img2 a e))"

text \<open>A square grid of side \<open>n\<close>: \<open>n\<close> rows of \<open>n\<close> cells each.\<close>

definition square_grid :: "grid \<Rightarrow> int \<Rightarrow> bool" where
  "square_grid img n \<longleftrightarrow> int (length img) = n \<and> (\<forall>row\<in>set img. int (length row) = n)"

text \<open>
  \<open>rectangular img\<close>: every row has the length \<open>width()\<close> reports, that of the first row.
  \<open>recorded_in_data img\<close>: the rectangle of the recorded \<open>w_\<close> by \<open>h_\<close> lies within the
  data, as it does in every image built by \<open>Image(width, height)\<close> or by \<open>PadToSquare\<close>.
\<close>

definition rectangular :: "Image \<Rightarrow> bool" where
  "rectangular img \<longleftrightarrow> (\<forall>row\<in>set (data img). int (length row) = width img)"

definition recorded_in_data :: "Image \<Rightarrow> bool" where
  "recorded_in_data img \<longleftrightarrow>
     (\<forall>y\<in>{0..<h_rec img}. \<forall>x\<in>{0..<w_rec img}. in_grid (data img) x y)"



text \<open>
  The distance of the specification, \<^verbatim>\<open>distanceSquared(a, b)\<close>: the sum over the channels of
  the squared channel differences, as an integer. It is the measure in which the claims are
  stated; \<open>distance32\<close> is what \<^verbatim>\<open>isUniform\<close> computes, and the two agree on 8-bit channels.
\<close>

definition distanceSquared :: "Color \<Rightarrow> Color \<Rightarrow> int" where
  "distanceSquared ref c =
     (let dr = r ref - r c; dg = g ref - g c; db = b ref - b c
      in dr * dr + dg * dg + db * db)"

text \<open>
  A colour as the image loader produces it, every channel between 0 and 255, and a grid of
  such colours.
\<close>

definition channels_8bit :: "Color \<Rightarrow> bool" where
  "channels_8bit c \<longleftrightarrow>
     0 \<le> r c \<and> r c \<le> 255 \<and> 0 \<le> g c \<and> g c \<le> 255 \<and> 0 \<le> b c \<and> b c \<le> 255"

definition grid_8bit :: "grid \<Rightarrow> bool" where
  "grid_8bit img \<longleftrightarrow> (\<forall>row\<in>set img. \<forall>c\<in>set row. channels_8bit c)"


section \<open>Properties\<close>

lemma for_loop_done: "n \<le> i \<Longrightarrow> for_loop i n body s = Inr s"
  by (subst for_loop.simps) simp

subsection \<open>Cells of a grid\<close>

lemma in_grid_shape: "map length img' = map length img \<Longrightarrow> in_grid img' x y = in_grid img x y"
proof -
  assume h: "map length img' = map length img"
  then have l: "length img' = length img" by (rule map_eq_imp_length_eq)
  have "\<And>k. k < length img \<Longrightarrow> length (img' ! k) = length (img ! k)"
    using h l by (metis nth_map)
  then show ?thesis using l by (auto simp: in_grid_def)
qed

lemma write_at_ok:
  assumes "in_grid img x y"
  shows "\<exists>img'. write_at img x y c = Inr img' \<and> map length img' = map length img \<and>
           (\<forall>a e. in_grid img a e \<longrightarrow> cell img' a e = (if a = x \<and> e = y then c else cell img a e))"
proof -
  let ?img' = "img[nat y := (img ! nat y)[nat x := c]]"
  have w: "write_at img x y c = Inr ?img'" using assms by (simp add: write_at_def)
  have "nat y < length img" using assms by (auto simp: in_grid_def)
  then have s: "map length ?img' = map length img"
    by (simp add: map_update list_update_same_conv)
  have c: "cell ?img' a e = (if a = x \<and> e = y then c else cell img a e)" if "in_grid img a e" for a e
  proof (cases "e = y")
    case True
    then show ?thesis using that assms
      by (cases "a = x") (auto simp: cell_def in_grid_def nat_eq_iff)
  next
    case False
    have "nat e \<noteq> nat y" using False that assms by (auto simp: in_grid_def)
    then show ?thesis using False by (simp add: cell_def)
  qed
  show ?thesis using w s c by blast
qed

subsection \<open>The invariant rule for counting loops\<close>

lemma for_loop_invariant:
  assumes "I i s" and "i \<le> n"
    and "\<And>k t. i \<le> k \<Longrightarrow> k < n \<Longrightarrow> I k t \<Longrightarrow> \<exists>t'. body k t = Inr t' \<and> I (k + 1) t'"
  shows "\<exists>t. for_loop i n body s = Inr t \<and> I n t"
  using assms
proof (induction "nat (n - i)" arbitrary: i s)
  case 0
  then have "i = n" by simp
  then show ?case using 0 by (simp add: for_loop_done)
next
  case (Suc d)
  then have lt: "i < n" by linarith
  from Suc.prems(3)[OF _ lt Suc.prems(1)] obtain t' where t': "body i s = Inr t'" "I (i + 1) t'"
    by auto
  have "\<exists>t. for_loop (i + 1) n body t' = Inr t \<and> I n t"
  proof (rule Suc.hyps(1))
    show "d = nat (n - (i + 1))" using Suc.hyps(2) by linarith
    show "I (i + 1) t'" by (rule t')
    show "i + 1 \<le> n" using lt by simp
    show "\<exists>t'. body k t = Inr t' \<and> I (k + 1) t'" if "i + 1 \<le> k" "k < n" "I k t" for k t
      using Suc.prems(3)[of k t] that by simp
  qed
  then show ?case using lt t' by (subst for_loop.simps) simp
qed

lemma fill_row:
  assumes "\<forall>i\<in>{x..<n}. in_grid img i j"
  shows "\<exists>img'. for_loop x n (\<lambda>i s. write_at s i j c) img = Inr img' \<and>
           map length img' = map length img \<and>
           (\<forall>a e. in_grid img a e \<longrightarrow>
              cell img' a e = (if e = j \<and> x \<le> a \<and> a < n then c else cell img a e))"
proof (cases "x \<le> n")
  case False
  then show ?thesis by (simp add: for_loop_done)
next
  case True
  define I where "I k s \<longleftrightarrow> map length s = map length img \<and>
     (\<forall>a e. in_grid img a e \<longrightarrow>
        cell s a e = (if e = j \<and> x \<le> a \<and> a < k then c else cell img a e))" for k s
  have "\<exists>t. for_loop x n (\<lambda>i s. write_at s i j c) img = Inr t \<and> I n t"
  proof (rule for_loop_invariant)
    show "I x img" by (simp add: I_def)
    show "x \<le> n" by (rule True)
    fix k t assume k: "x \<le> k" "k < n" and t: "I k t"
    have sh: "map length t = map length img" using t by (simp add: I_def)
    have "in_grid img k j" using assms k by simp
    then have "in_grid t k j" by (simp add: in_grid_shape[OF sh])
    from write_at_ok[OF this, of c] obtain t' where t': "write_at t k j c = Inr t'"
      "map length t' = map length t"
      "\<And>a e. in_grid t a e \<Longrightarrow> cell t' a e = (if a = k \<and> e = j then c else cell t a e)"
      by blast
    have "I (k + 1) t'"
      unfolding I_def
    proof (intro conjI allI impI)
      show "map length t' = map length img" using t' t by (simp add: I_def)
      fix a e assume g: "in_grid img a e"
      then have "in_grid t a e" by (simp add: in_grid_shape[OF sh])
      then have "cell t' a e = (if a = k \<and> e = j then c else cell t a e)" by (rule t'(3))
      moreover have "cell t a e = (if e = j \<and> x \<le> a \<and> a < k then c else cell img a e)"
        using t g by (simp add: I_def)
      ultimately show "cell t' a e = (if e = j \<and> x \<le> a \<and> a < k + 1 then c else cell img a e)"
        using k by auto
    qed
    then show "\<exists>t'. write_at t k j c = Inr t' \<and> I (k + 1) t'" using t' by blast
  qed
  then show ?thesis by (simp add: I_def)
qed

lemma fill_region:
  assumes "\<forall>j\<in>{y..<m}. \<forall>i\<in>{x..<n}. in_grid img i j"
  shows "\<exists>img'. for_loop y m (\<lambda>j. for_loop x n (\<lambda>i s. write_at s i j c)) img = Inr img' \<and>
           map length img' = map length img \<and>
           (\<forall>a e. in_grid img a e \<longrightarrow>
              cell img' a e = (if y \<le> e \<and> e < m \<and> x \<le> a \<and> a < n then c else cell img a e))"
proof (cases "y \<le> m")
  case False
  then show ?thesis by (simp add: for_loop_done)
next
  case True
  define I where "I k s \<longleftrightarrow> map length s = map length img \<and>
     (\<forall>a e. in_grid img a e \<longrightarrow>
        cell s a e = (if y \<le> e \<and> e < k \<and> x \<le> a \<and> a < n then c else cell img a e))" for k s
  have "\<exists>t. for_loop y m (\<lambda>j. for_loop x n (\<lambda>i s. write_at s i j c)) img = Inr t \<and> I m t"
  proof (rule for_loop_invariant)
    show "I y img" by (simp add: I_def)
    show "y \<le> m" by (rule True)
    fix k t assume k: "y \<le> k" "k < m" and t: "I k t"
    have sh: "map length t = map length img" using t by (simp add: I_def)
    have "\<forall>i\<in>{x..<n}. in_grid img i k" using assms k by simp
    then have "\<forall>i\<in>{x..<n}. in_grid t i k" by (simp add: in_grid_shape[OF sh])
    from fill_row[OF this, of c] obtain t' where t':
      "for_loop x n (\<lambda>i s. write_at s i k c) t = Inr t'"
      "map length t' = map length t"
      "\<And>a e. in_grid t a e \<Longrightarrow>
          cell t' a e = (if e = k \<and> x \<le> a \<and> a < n then c else cell t a e)"
      by blast
    have "I (k + 1) t'"
      unfolding I_def
    proof (intro conjI allI impI)
      show "map length t' = map length img" using t' t by (simp add: I_def)
      fix a e assume g: "in_grid img a e"
      then have "in_grid t a e" by (simp add: in_grid_shape[OF sh])
      then have "cell t' a e = (if e = k \<and> x \<le> a \<and> a < n then c else cell t a e)"
        by (rule t'(3))
      moreover have "cell t a e = (if y \<le> e \<and> e < k \<and> x \<le> a \<and> a < n then c else cell img a e)"
        using t g by (simp add: I_def)
      ultimately show "cell t' a e =
          (if y \<le> e \<and> e < k + 1 \<and> x \<le> a \<and> a < n then c else cell img a e)"
        using k by auto
    qed
    then show "\<exists>t'. for_loop x n (\<lambda>i s. write_at s i k c) t = Inr t' \<and> I (k + 1) t'"
      using t' by blast
  qed
  then show ?thesis by (simp add: I_def)
qed

subsection \<open>Regions and their quadrants\<close>

lemma region_in_iff:
  "region_in img x y sz \<longleftrightarrow> (\<forall>a e. in_region x y sz a e \<longrightarrow> in_grid img a e)"
  by (auto simp: region_in_def in_region_def)

lemma region_in_shape:
  "map length img' = map length img \<Longrightarrow> region_in img' x y sz = region_in img x y sz"
  by (simp add: region_in_iff in_grid_shape[of img' img])

lemma region_in_sub:
  "region_in img x y sz \<Longrightarrow> (\<And>a e. in_region x' y' sz' a e \<Longrightarrow> in_region x y sz a e) \<Longrightarrow>
   region_in img x' y' sz'"
  by (simp add: region_in_iff)

lemma sdiv_2_cases: "(k::int) sdiv 2 \<le> 0 \<or> (0 < k sdiv 2 \<and> 2 * (k sdiv 2) \<le> k)"
proof (cases "0 \<le> k")
  case True
  then show ?thesis by (simp add: sdiv_2_nonneg) presburger
next
  case False
  then have "k sdiv 2 = - (\<bar>k\<bar> div 2)" by (simp add: signed_divide_int_def)
  then show ?thesis by simp
qed

lemma quadrant_sub:
  assumes "in_region qx qy (sz sdiv 2) a e"
    and "(qx = x \<or> qx = x + sz sdiv 2) \<and> (qy = y \<or> qy = y + sz sdiv 2)"
  shows "in_region x y sz a e"
  using assms sdiv_2_cases[of sz] by (auto simp: in_region_def)

lemma same_outside_refl: "same_outside img img x y sz"
  by (simp add: same_outside_def)

lemma same_outside_trans:
  assumes "same_outside img img1 x y sz" and "same_outside img1 img2 x y sz"
  shows "same_outside img img2 x y sz"
proof -
  have sh: "map length img1 = map length img" using assms(1) by (simp add: same_outside_def)
  show ?thesis using assms by (auto simp: same_outside_def in_grid_shape[OF sh])
qed

lemma same_outside_mono:
  assumes "same_outside img img' x' y' sz'"
    and "\<And>a e. in_region x' y' sz' a e \<Longrightarrow> in_region x y sz a e"
  shows "same_outside img img' x y sz"
  using assms by (auto simp: same_outside_def)

subsection \<open>Decode succeeds and keeps what is outside the region\<close>

lemma Decode_leaf:
  assumes "region_in img x y sz"
  shows "\<exists>img'. Decode img (QuadLeaf c) x y sz = Inr img' \<and> map length img' = map length img \<and>
           (\<forall>a e. in_grid img a e \<longrightarrow>
              cell img' a e = (if in_region x y sz a e then c else cell img a e))"
proof -
  have "\<forall>j\<in>{y..<y + sz}. \<forall>i\<in>{x..<x + sz}. in_grid img i j"
    using assms by (simp add: region_in_def)
  from fill_region[OF this, of c] show ?thesis
    by (auto simp: in_region_def)
qed

lemma Decode_frame:
  "region_in img x y sz \<Longrightarrow> \<exists>img'. Decode img t x y sz = Inr img' \<and> same_outside img img' x y sz"
proof (induction t arbitrary: img x y sz)
  case (QuadLeaf c)
  from Decode_leaf[OF QuadLeaf, of c] show ?case
    by (auto simp: same_outside_def)
next
  case (QuadNode nw ne se sw)
  define half where "half = sz sdiv 2"
  have sub: "in_region x y sz a e" if "in_region qx qy half a e"
    "(qx = x \<or> qx = x + half) \<and> (qy = y \<or> qy = y + half)" for qx qy a e
    using that quadrant_sub[of qx qy sz a e x y] by (simp add: half_def)
  have r0: "region_in img x y half"
    by (rule region_in_sub[OF QuadNode.prems]) (simp add: sub)
  from QuadNode.IH(1)[OF r0] obtain img1 where 1: "Decode img nw x y half = Inr img1"
    "same_outside img img1 x y half" by blast
  have s1: "map length img1 = map length img" using 1 by (simp add: same_outside_def)
  have "region_in img (x + half) y half"
    by (rule region_in_sub[OF QuadNode.prems]) (simp add: sub)
  then have r1: "region_in img1 (x + half) y half" by (simp add: region_in_shape[OF s1])
  from QuadNode.IH(2)[OF r1] obtain img2 where 2: "Decode img1 ne (x + half) y half = Inr img2"
    "same_outside img1 img2 (x + half) y half" by blast
  have s2: "map length img2 = map length img" using 2 s1 by (simp add: same_outside_def)
  have "region_in img (x + half) (y + half) half"
    by (rule region_in_sub[OF QuadNode.prems]) (simp add: sub)
  then have r2: "region_in img2 (x + half) (y + half) half" by (simp add: region_in_shape[OF s2])
  from QuadNode.IH(3)[OF r2] obtain img3 where
    3: "Decode img2 se (x + half) (y + half) half = Inr img3"
    "same_outside img2 img3 (x + half) (y + half) half" by blast
  have s3: "map length img3 = map length img" using 3 s2 by (simp add: same_outside_def)
  have "region_in img x (y + half) half"
    by (rule region_in_sub[OF QuadNode.prems]) (simp add: sub)
  then have r3: "region_in img3 x (y + half) half" by (simp add: region_in_shape[OF s3])
  from QuadNode.IH(4)[OF r3] obtain img4 where 4: "Decode img3 sw x (y + half) half = Inr img4"
    "same_outside img3 img4 x (y + half) half" by blast
  have d: "Decode img (QuadNode nw ne se sw) x y sz = Inr img4"
    using 1 2 3 4 by (simp add: half_def)
  have "same_outside img img1 x y sz" by (rule same_outside_mono[OF 1(2)]) (simp add: sub)
  moreover have "same_outside img1 img2 x y sz" by (rule same_outside_mono[OF 2(2)]) (simp add: sub)
  moreover have "same_outside img2 img3 x y sz" by (rule same_outside_mono[OF 3(2)]) (simp add: sub)
  moreover have "same_outside img3 img4 x y sz" by (rule same_outside_mono[OF 4(2)]) (simp add: sub)
  ultimately have "same_outside img img4 x y sz" by (blast intro: same_outside_trans)
  then show ?case using d by blast
qed

lemma Decode_node_steps:
  assumes "region_in img x y sz" and "half = sz sdiv 2"
  shows "\<exists>img1 img2 img3 img4.
           Decode img nw x y half = Inr img1 \<and>
           Decode img1 ne (x + half) y half = Inr img2 \<and>
           Decode img2 se (x + half) (y + half) half = Inr img3 \<and>
           Decode img3 sw x (y + half) half = Inr img4 \<and>
           Decode img (QuadNode nw ne se sw) x y sz = Inr img4 \<and>
           same_outside img img1 x y half \<and>
           same_outside img1 img2 (x + half) y half \<and>
           same_outside img2 img3 (x + half) (y + half) half \<and>
           same_outside img3 img4 x (y + half) half"
proof -
  have sub: "in_region x y sz a e" if "in_region qx qy half a e"
    "(qx = x \<or> qx = x + half) \<and> (qy = y \<or> qy = y + half)" for qx qy a e
    using that quadrant_sub[of qx qy sz a e x y] by (simp add: assms(2))
  have r0: "region_in img x y half"
    by (rule region_in_sub[OF assms(1)]) (simp add: sub)
  from Decode_frame[OF r0] obtain img1 where 1: "Decode img nw x y half = Inr img1"
    "same_outside img img1 x y half" by blast
  have s1: "map length img1 = map length img" using 1 by (simp add: same_outside_def)
  have "region_in img (x + half) y half"
    by (rule region_in_sub[OF assms(1)]) (simp add: sub)
  then have r1: "region_in img1 (x + half) y half" by (simp add: region_in_shape[OF s1])
  from Decode_frame[OF r1] obtain img2 where 2: "Decode img1 ne (x + half) y half = Inr img2"
    "same_outside img1 img2 (x + half) y half" by blast
  have s2: "map length img2 = map length img" using 2 s1 by (simp add: same_outside_def)
  have "region_in img (x + half) (y + half) half"
    by (rule region_in_sub[OF assms(1)]) (simp add: sub)
  then have r2: "region_in img2 (x + half) (y + half) half" by (simp add: region_in_shape[OF s2])
  from Decode_frame[OF r2] obtain img3 where
    3: "Decode img2 se (x + half) (y + half) half = Inr img3"
    "same_outside img2 img3 (x + half) (y + half) half" by blast
  have s3: "map length img3 = map length img" using 3 s2 by (simp add: same_outside_def)
  have "region_in img x (y + half) half"
    by (rule region_in_sub[OF assms(1)]) (simp add: sub)
  then have r3: "region_in img3 x (y + half) half" by (simp add: region_in_shape[OF s3])
  from Decode_frame[OF r3] obtain img4 where 4: "Decode img3 sw x (y + half) half = Inr img4"
    "same_outside img3 img4 x (y + half) half" by blast
  have d: "Decode img (QuadNode nw ne se sw) x y sz = Inr img4"
    using 1 2 3 4 by (simp add: assms(2))
  show ?thesis using 1 2 3 4 d by blast
qed

lemma written_alike_trans:
  assumes "written_alike a1 a2 b1 b2" and "written_alike b1 b2 c1 c2"
    and "map length b1 = map length a1" and "map length b2 = map length a2"
  shows "written_alike a1 a2 c1 c2"
  unfolding written_alike_def
proof (intro allI impI)
  fix a e assume g: "in_grid a1 a e \<and> in_grid a2 a e"
  then have g': "in_grid b1 a e \<and> in_grid b2 a e"
    by (simp add: in_grid_shape[OF assms(3)] in_grid_shape[OF assms(4)])
  from assms(1) g have 1: "cell b1 a e = cell b2 a e \<or> (cell b1 a e = cell a1 a e \<and> cell b2 a e = cell a2 a e)"
    by (simp add: written_alike_def)
  from assms(2) g' have 2: "cell c1 a e = cell c2 a e \<or> (cell c1 a e = cell b1 a e \<and> cell c2 a e = cell b2 a e)"
    by (simp add: written_alike_def)
  from 1 2 show "cell c1 a e = cell c2 a e \<or> (cell c1 a e = cell a1 a e \<and> cell c2 a e = cell a2 a e)"
    by auto
qed

lemma Decode_independent:
  assumes "region_in img1 x y sz" and "region_in img2 x y sz"
    and "Decode img1 t x y sz = Inr out1" and "Decode img2 t x y sz = Inr out2"
  shows "written_alike img1 img2 out1 out2"
  using assms
proof (induction t arbitrary: img1 img2 x y sz out1 out2)
  case (QuadLeaf c)
  from Decode_leaf[OF QuadLeaf.prems(1), of c] Decode_leaf[OF QuadLeaf.prems(2), of c]
  show ?case using QuadLeaf.prems(3,4) by (auto simp: written_alike_def)
next
  case (QuadNode nw ne se sw)
  define half where "half = sz sdiv 2"
  from Decode_node_steps[OF QuadNode.prems(1) half_def, of nw ne se sw]
  obtain a1 a2 a3 a4 where a:
    "Decode img1 nw x y half = Inr a1"
    "Decode a1 ne (x + half) y half = Inr a2"
    "Decode a2 se (x + half) (y + half) half = Inr a3"
    "Decode a3 sw x (y + half) half = Inr a4"
    "Decode img1 (QuadNode nw ne se sw) x y sz = Inr a4"
    "same_outside img1 a1 x y half"
    "same_outside a1 a2 (x + half) y half"
    "same_outside a2 a3 (x + half) (y + half) half"
    "same_outside a3 a4 x (y + half) half" by blast
  from Decode_node_steps[OF QuadNode.prems(2) half_def, of nw ne se sw]
  obtain b1 b2 b3 b4 where b:
    "Decode img2 nw x y half = Inr b1"
    "Decode b1 ne (x + half) y half = Inr b2"
    "Decode b2 se (x + half) (y + half) half = Inr b3"
    "Decode b3 sw x (y + half) half = Inr b4"
    "Decode img2 (QuadNode nw ne se sw) x y sz = Inr b4"
    "same_outside img2 b1 x y half"
    "same_outside b1 b2 (x + half) y half"
    "same_outside b2 b3 (x + half) (y + half) half"
    "same_outside b3 b4 x (y + half) half" by blast
  have o: "out1 = a4" "out2 = b4" using a(5) b(5) QuadNode.prems(3,4) by simp_all
  have sa: "map length a1 = map length img1" "map length a2 = map length a1"
    "map length a3 = map length a2"
    using a by (simp_all add: same_outside_def)
  have sb: "map length b1 = map length img2" "map length b2 = map length b1"
    "map length b3 = map length b2"
    using b by (simp_all add: same_outside_def)
  have sub: "in_region x y sz a e" if "in_region qx qy half a e"
    "(qx = x \<or> qx = x + half) \<and> (qy = y \<or> qy = y + half)" for qx qy a e
    using that quadrant_sub[of qx qy sz a e x y] by (simp add: half_def)
  have ra: "region_in img1 x y half" "region_in img1 (x + half) y half"
    "region_in img1 (x + half) (y + half) half" "region_in img1 x (y + half) half"
    by (rule region_in_sub[OF QuadNode.prems(1)], simp add: sub)+
  have rb: "region_in img2 x y half" "region_in img2 (x + half) y half"
    "region_in img2 (x + half) (y + half) half" "region_in img2 x (y + half) half"
    by (rule region_in_sub[OF QuadNode.prems(2)], simp add: sub)+
  have w1: "written_alike img1 img2 a1 b1"
    by (rule QuadNode.IH(1)[OF ra(1) rb(1) a(1) b(1)])
  have w2: "written_alike a1 b1 a2 b2"
    by (rule QuadNode.IH(2)[OF _ _ a(2) b(2)])
       (simp_all add: region_in_shape[OF sa(1)] region_in_shape[OF sb(1)] ra rb)
  have w3: "written_alike a2 b2 a3 b3"
    by (rule QuadNode.IH(3)[OF _ _ a(3) b(3)])
       (simp_all add: region_in_shape[OF sa(2)] region_in_shape[OF sb(2)]
          region_in_shape[OF sa(1)] region_in_shape[OF sb(1)] ra rb)
  have w4: "written_alike a3 b3 a4 b4"
    by (rule QuadNode.IH(4)[OF _ _ a(4) b(4)])
       (simp_all add: region_in_shape[OF sa(3)] region_in_shape[OF sb(3)]
          region_in_shape[OF sa(2)] region_in_shape[OF sb(2)]
          region_in_shape[OF sa(1)] region_in_shape[OF sb(1)] ra rb)
  have w12: "written_alike img1 img2 a2 b2"
    by (rule written_alike_trans[OF w1 w2 sa(1) sb(1)])
  have w13: "written_alike img1 img2 a3 b3"
    by (rule written_alike_trans[OF w12 w3]) (simp_all add: sa sb)
  have "written_alike img1 img2 a4 b4"
    by (rule written_alike_trans[OF w13 w4]) (simp_all add: sa sb)
  then show ?case by (simp add: o)
qed

text \<open>Enumerating an interval of integers between numerals.\<close>

lemma int_range_unfold: "{i..<j::int} = (if i < j then insert i {i + 1..<j} else {})"
  by auto

subsection \<open>Powers of two\<close>

lemma pow2_IsPowerOfTwo: "IsPowerOfTwo (2 ^ k)"
proof -
  have "and ((2::int) ^ k) (2 ^ k - 1) = take_bit k (2 ^ k)"
    by (simp add: take_bit_eq_mask mask_eq_exp_minus_1)
  then show ?thesis by (simp add: IsPowerOfTwo_def)
qed

lemma IsPowerOfTwo_pow2:
  assumes "IsPowerOfTwo x"
  shows "\<exists>k. x = 2 ^ k"
proof -
  have "0 < x \<Longrightarrow> and x (x - 1) = 0 \<Longrightarrow> \<exists>k. x = 2 ^ k" for x :: int
  proof (induction "nat x" arbitrary: x rule: less_induct)
    case less
    have rec: "and x (x - 1) = of_bool (odd x \<and> odd (x - 1)) + 2 * and (x div 2) ((x - 1) div 2)"
      by (rule and_int_rec)
    show ?case
    proof (cases "even x")
      case True
      then obtain z where z: "x = 2 * z" by (auto elim: evenE)
      then have zpos: "0 < z" using less.prems(1) by simp
      have "(x - 1) div 2 = z - 1" using z by simp
      then have "and z (z - 1) = 0" using rec less.prems(2) z True by simp
      moreover have "nat z < nat x" using z zpos by simp
      ultimately obtain k where "z = 2 ^ k" using less.hyps[of z] zpos by blast
      then have "x = 2 ^ (Suc k)" using z by simp
      then show ?thesis by blast
    next
      case False
      then obtain z where z: "x = 2 * z + 1" by (auto elim: oddE)
      have "(x - 1) div 2 = z" "x div 2 = z" using z by simp_all
      then have "z = 0" using rec less.prems(2) z False by simp
      then have "x = 2 ^ 0" using z by simp
      then show ?thesis by blast
    qed
  qed
  then show ?thesis using assms by (simp add: IsPowerOfTwo_def)
qed

subsection \<open>What isUniform computes\<close>

lemma read_at_in: "in_grid img x y \<Longrightarrow> read_at img x y = Inr (cell img x y)"
  by (simp add: read_at_def)

lemma isUniform_cols_eq:
  assumes "\<forall>k\<in>{i..<n}. in_grid img k j"
  shows "isUniform_cols img ref tol j i n =
           Inr (\<forall>k\<in>{i..<n}. distance32 ref (cell img k j) \<le> int32 (tol * tol))"
  using assms
proof (induction img ref tol j i n rule: isUniform_cols.induct)
  case (1 img ref tol j i n)
  show ?case
  proof (cases "i < n")
    case False
    then show ?thesis by (subst isUniform_cols.simps) simp
  next
    case True
    then have rd: "read_at img i j = Inr (cell img i j)" using "1.prems" by (simp add: read_at_in)
    have split: "{i..<n} = insert i {i + 1..<n}" using True by auto
    show ?thesis
    proof (cases "distance32 ref (cell img i j) > int32 (tol * tol)")
      case far: True
      then have "\<not> (\<forall>k\<in>{i..<n}. distance32 ref (cell img k j) \<le> int32 (tol * tol))"
        using True by (auto intro!: bexI[of _ i])
      then show ?thesis using True rd far by (subst isUniform_cols.simps) simp
    next
      case near: False
      have "isUniform_cols img ref tol j (i + 1) n =
          Inr (\<forall>k\<in>{i + 1..<n}. distance32 ref (cell img k j) \<le> int32 (tol * tol))"
        using "1.IH"[OF True rd near] "1.prems" by simp
      then show ?thesis using True rd near
        by (subst isUniform_cols.simps) (simp add: split)
    qed
  qed
qed

lemma isUniform_rows_eq:
  assumes "\<forall>e\<in>{j..<m}. \<forall>k\<in>{x..<n}. in_grid img k e"
  shows "isUniform_rows img ref tol x n j m =
           Inr (\<forall>e\<in>{j..<m}. \<forall>k\<in>{x..<n}. distance32 ref (cell img k e) \<le> int32 (tol * tol))"
  using assms
proof (induction img ref tol x n j m rule: isUniform_rows.induct)
  case (1 img ref tol x n j m)
  show ?case
  proof (cases "j < m")
    case False
    then show ?thesis by (subst isUniform_rows.simps) simp
  next
    case True
    then have "\<forall>k\<in>{x..<n}. in_grid img k j" using "1.prems" by simp
    then have row: "isUniform_cols img ref tol j x n =
        Inr (\<forall>k\<in>{x..<n}. distance32 ref (cell img k j) \<le> int32 (tol * tol))"
      by (rule isUniform_cols_eq)
    have split: "{j..<m} = insert j {j + 1..<m}" using True by auto
    show ?thesis
    proof (cases "\<forall>k\<in>{x..<n}. distance32 ref (cell img k j) \<le> int32 (tol * tol)")
      case False
      then show ?thesis using True row
        by (subst isUniform_rows.simps) (auto simp: split)
    next
      case ok: True
      have "isUniform_rows img ref tol x n (j + 1) m =
          Inr (\<forall>e\<in>{j + 1..<m}. \<forall>k\<in>{x..<n}. distance32 ref (cell img k e) \<le> int32 (tol * tol))"
        using "1.IH"[OF True row[unfolded eqTrueI[OF ok]]] "1.prems" by simp
      then show ?thesis using True row ok
        by (subst isUniform_rows.simps) (simp add: split)
    qed
  qed
qed

lemma isUniform_eq:
  assumes "region_in img x y sz" and "in_grid img x y"
  shows "isUniform img x y sz tol =
           Inr (\<forall>e\<in>{y..<y + sz}. \<forall>k\<in>{x..<x + sz}.
                  distance32 (cell img x y) (cell img k e) \<le> int32 (tol * tol))"
proof -
  have "\<forall>e\<in>{y..<y + sz}. \<forall>k\<in>{x..<x + sz}. in_grid img k e"
    using assms(1) by (simp add: region_in_def)
  from isUniform_rows_eq[OF this] show ?thesis
    using assms(2) by (simp add: isUniform_def read_at_in)
qed

subsection \<open>The arithmetic of isUniform on 8-bit channels\<close>

lemma int32_id: "- (2 ^ 31) \<le> k \<Longrightarrow> k < 2 ^ 31 \<Longrightarrow> int32 k = k"
  by (simp add: int32_def)

lemma int32_nonneg: "0 \<le> k \<Longrightarrow> k < 2 ^ 31 \<Longrightarrow> int32 k = k"
  by (simp add: int32_def)

lemma square_8bit: "- 255 \<le> (k::int) \<Longrightarrow> k \<le> 255 \<Longrightarrow> 0 \<le> k * k \<and> k * k \<le> 255 * 255"
proof -
  assume "- 255 \<le> k" "k \<le> 255"
  then have "\<bar>k\<bar> \<le> 255" by simp
  then have "\<bar>k\<bar> * \<bar>k\<bar> \<le> 255 * 255" by (intro mult_mono) simp_all
  then show ?thesis by (simp add: abs_mult_self_eq)
qed

lemma distanceSquared_range:
  assumes "channels_8bit c" and "channels_8bit d"
  shows "0 \<le> distanceSquared c d \<and> distanceSquared c d \<le> 3 * 255 * 255"
proof -
  have "0 \<le> (r c - r d) * (r c - r d) \<and> (r c - r d) * (r c - r d) \<le> 255 * 255"
    "0 \<le> (g c - g d) * (g c - g d) \<and> (g c - g d) * (g c - g d) \<le> 255 * 255"
    "0 \<le> (b c - b d) * (b c - b d) \<and> (b c - b d) * (b c - b d) \<le> 255 * 255"
    using assms by (intro square_8bit; simp add: channels_8bit_def)+
  then show ?thesis by (simp add: distanceSquared_def Let_def)
qed

lemma distance32_8bit:
  assumes "channels_8bit c" and "channels_8bit d"
  shows "distance32 c d = distanceSquared c d"
proof -
  define dr dg db where "dr = r c - r d" and "dg = g c - g d" and "db = b c - b d"
  have d: "- 255 \<le> dr" "dr \<le> 255" "- 255 \<le> dg" "dg \<le> 255" "- 255 \<le> db" "db \<le> 255"
    using assms by (simp_all add: channels_8bit_def dr_def dg_def db_def)
  have nn: "0 \<le> dr * dr" "0 \<le> dg * dg" "0 \<le> db * db" by simp_all
  have ub: "dr * dr \<le> 65025" "dg * dg \<le> 65025" "db * db \<le> 65025"
    using square_8bit[OF d(1,2)] square_8bit[OF d(3,4)] square_8bit[OF d(5,6)] by simp_all
  have 1: "int32 dr = dr" "int32 dg = dg" "int32 db = db"
    using d by (intro int32_id; simp)+
  have 2: "int32 (dr * dr) = dr * dr" "int32 (dg * dg) = dg * dg" "int32 (db * db) = db * db"
    using nn ub by (simp_all add: int32_nonneg)
  have 3: "int32 (dr * dr + dg * dg) = dr * dr + dg * dg"
  proof (rule int32_nonneg)
    show "0 \<le> dr * dr + dg * dg" using nn by linarith
    have "dr * dr + dg * dg \<le> 130050" using ub by linarith
    then show "dr * dr + dg * dg < 2 ^ 31" by simp
  qed
  have 4: "int32 (dr * dr + dg * dg + db * db) = dr * dr + dg * dg + db * db"
  proof (rule int32_nonneg)
    show "0 \<le> dr * dr + dg * dg + db * db" using nn by linarith
    have "dr * dr + dg * dg + db * db \<le> 195075" using ub by linarith
    then show "dr * dr + dg * dg + db * db < 2 ^ 31" by simp
  qed
  show ?thesis
    by (simp add: distance32_def distanceSquared_def Let_def 1 2 3 4 flip: dr_def dg_def db_def)
qed

lemma distance32_self: "distance32 c c = 0"
  by (simp add: distance32_def int32_def)

lemma distanceSquared_self: "distanceSquared c c = 0"
  by (simp add: distanceSquared_def)

lemma distanceSquared_sym: "distanceSquared c d = distanceSquared d c"
  by (simp add: distanceSquared_def Let_def algebra_simps)


lemma grid_8bit_cell: "grid_8bit img \<Longrightarrow> in_grid img a e \<Longrightarrow> channels_8bit (cell img a e)"
proof -
  assume g: "grid_8bit img" and i: "in_grid img a e"
  have "img ! nat e \<in> set img" using i by (auto simp: in_grid_def)
  moreover have "img ! nat e ! nat a \<in> set (img ! nat e)" using i by (auto simp: in_grid_def)
  ultimately show ?thesis using g by (auto simp: grid_8bit_def cell_def)
qed

lemma isUniform_8bit:
  assumes "region_in img x y sz" and "in_grid img x y" and "grid_8bit img"
    and "0 \<le> tol" and "tol * tol < 2 ^ 31"
  shows "isUniform img x y sz tol =
           Inr (\<forall>e\<in>{y..<y + sz}. \<forall>k\<in>{x..<x + sz}.
                  distanceSquared (cell img x y) (cell img k e) \<le> tol * tol)"
proof -
  have t: "int32 (tol * tol) = tol * tol"
    using assms(4,5) by (intro int32_id) (simp_all add: order_trans[of _ 0])
  have "distance32 (cell img x y) (cell img k e) = distanceSquared (cell img x y) (cell img k e)"
    if "e \<in> {y..<y + sz}" "k \<in> {x..<x + sz}" for k e
  proof -
    have "in_grid img k e" using assms(1) that by (simp add: region_in_def)
    then show ?thesis using assms(2,3) by (intro distance32_8bit grid_8bit_cell)
  qed
  then show ?thesis by (simp add: isUniform_eq[OF assms(1,2)] t)
qed

subsection \<open>Encoding a region and decoding it again\<close>

lemma Encode_tolerance_default: "Encode_tolerance 10 img x y sz = Encode img x y sz"
proof (induction "nat sz" arbitrary: x y sz rule: less_induct)
  case less
  show ?case
  proof (cases "isUniform img x y sz 10 = Inr False")
    case False
    then show ?thesis
      by (subst Encode_tolerance.simps, subst Encode.simps) (auto split: sum.splits)
  next
    case True
    then have "0 < sz" by (rule isUniform_False_positive)
    then have m: "nat (sz sdiv 2) < nat sz" by (simp add: sdiv_2_nonneg)
    note IH = less.hyps[OF m]
    show ?thesis
      using True by (subst Encode_tolerance.simps, subst Encode.simps)
        (simp add: IH Let_def cong: sum.case_cong)
  qed
qed

lemma Encode_tolerance_uniform:
  assumes "isUniform img x y sz tol = Inr True" and "in_grid img x y"
  shows "Encode_tolerance tol img x y sz = Inr (QuadLeaf (cell img x y))"
  using assms by (subst Encode_tolerance.simps) (simp add: read_at_in)

lemma Encode_tolerance_split:
  assumes "isUniform img x y sz tol = Inr False"
    and "Encode_tolerance tol img x y (sz sdiv 2) = Inr nw"
    and "Encode_tolerance tol img (x + sz sdiv 2) y (sz sdiv 2) = Inr ne"
    and "Encode_tolerance tol img (x + sz sdiv 2) (y + sz sdiv 2) (sz sdiv 2) = Inr se"
    and "Encode_tolerance tol img x (y + sz sdiv 2) (sz sdiv 2) = Inr sw"
  shows "Encode_tolerance tol img x y sz = Inr (QuadNode nw ne se sw)"
  using assms by (subst Encode_tolerance.simps) simp

lemma region_corner: "0 < sz \<Longrightarrow> region_in img x y sz \<Longrightarrow> in_grid img x y"
  by (simp add: region_in_iff in_region_def)

lemma region_in_one: "region_in img x y 1 = in_grid img x y"
proof -
  have "{y..<y + 1} = {y}" "{x..<x + 1} = {x}" by auto
  then show ?thesis by (simp add: region_in_def)
qed

lemma isUniform_one:
  assumes "in_grid img x y" and "0 \<le> int32 (tol * tol)"
  shows "isUniform img x y 1 tol = Inr True"
proof -
  have r: "region_in img x y 1" using assms(1) by (simp add: region_in_one)
  have "{y..<y + 1} = {y}" "{x..<x + 1} = {x}" by auto
  then show ?thesis using assms(2) by (simp add: isUniform_eq[OF r assms(1)] distance32_self)
qed

lemma codec_region:
  assumes "region_in G x y (2 ^ k)" and "region_in T x y (2 ^ k)"
    and tol: "0 \<le> int32 (tol * tol)"
  shows "\<exists>t out. Encode_tolerance tol G x y (2 ^ k) = Inr t \<and> Decode T t x y (2 ^ k) = Inr out \<and>
           same_outside T out x y (2 ^ k) \<and>
           (\<forall>a e. in_region x y (2 ^ k) a e \<longrightarrow>
              (\<exists>a' e'. in_region x y (2 ^ k) a' e' \<and> cell out a e = cell G a' e' \<and>
                 distance32 (cell G a' e') (cell G a e) \<le> int32 (tol * tol)))"
  using assms(1,2)
proof (induction k arbitrary: x y T)
  case 0
  have g: "in_grid G x y" using "0.prems"(1) by (simp add: region_in_one)
  have e: "Encode_tolerance tol G x y (2 ^ 0) = Inr (QuadLeaf (cell G x y))"
    using Encode_tolerance_uniform[OF isUniform_one[OF g tol] g] by simp
  from Decode_leaf[OF "0.prems"(2), of "cell G x y"] obtain out where
    out: "Decode T (QuadLeaf (cell G x y)) x y (2 ^ 0) = Inr out"
      "map length out = map length T"
      "\<And>a e. in_grid T a e \<Longrightarrow>
          cell out a e = (if in_region x y (2 ^ 0) a e then cell G x y else cell T a e)"
    by blast
  have so: "same_outside T out x y (2 ^ 0)" using out by (simp add: same_outside_def)
  have "\<exists>a' e'. in_region x y (2 ^ 0) a' e' \<and> cell out a e = cell G a' e' \<and>
                 distance32 (cell G a' e') (cell G a e) \<le> int32 (tol * tol)"
    if "in_region x y (2 ^ 0) a e" for a e
  proof -
    have ae: "a = x" "e = y" using that by (simp_all add: in_region_def)
    have "in_grid T a e" using that "0.prems"(2) by (simp add: region_in_iff)
    then have c: "cell out a e = cell G x y" using out(3) that by simp
    have "in_region x y (2 ^ 0) x y \<and> cell out a e = cell G x y \<and>
        distance32 (cell G x y) (cell G a e) \<le> int32 (tol * tol)"
      using c that ae tol by (simp add: distance32_self)
    then show ?thesis by blast
  qed
  then show ?case using e out(1) so by blast
next
  case (Suc k)
  define sz :: int where "sz = 2 ^ Suc k"
  define h :: int where "h = 2 ^ k"
  have hpos: "0 < h" by (simp add: h_def)
  have sz: "sz = h + h" by (simp add: sz_def h_def)
  have half: "sz sdiv 2 = h" using hpos by (simp add: sz sdiv_2_nonneg)
  have pG: "region_in G x y sz" using Suc.prems(1) by (simp only: sz_def)
  have pT: "region_in T x y sz" using Suc.prems(2) by (simp only: sz_def)
  note IH = Suc.IH[folded h_def]
  have g: "in_grid G x y" by (rule region_corner[OF _ pG]) (simp add: sz_def)
  have un: "isUniform G x y sz tol =
     Inr (\<forall>e\<in>{y..<y + sz}. \<forall>k\<in>{x..<x + sz}.
            distance32 (cell G x y) (cell G k e) \<le> int32 (tol * tol))"
    by (rule isUniform_eq[OF pG g])
  have "\<exists>t out. Encode_tolerance tol G x y sz = Inr t \<and> Decode T t x y sz = Inr out \<and>
           same_outside T out x y sz \<and>
           (\<forall>a e. in_region x y sz a e \<longrightarrow>
              (\<exists>a' e'. in_region x y sz a' e' \<and> cell out a e = cell G a' e' \<and>
                 distance32 (cell G a' e') (cell G a e) \<le> int32 (tol * tol)))"
  proof (cases "\<forall>e\<in>{y..<y + sz}. \<forall>k\<in>{x..<x + sz}.
            distance32 (cell G x y) (cell G k e) \<le> int32 (tol * tol)")
    case True
    have e: "Encode_tolerance tol G x y sz = Inr (QuadLeaf (cell G x y))"
      using Encode_tolerance_uniform[OF _ g] un True by simp
    from Decode_leaf[OF pT, of "cell G x y"] obtain out where
      out: "Decode T (QuadLeaf (cell G x y)) x y sz = Inr out"
        "map length out = map length T"
        "\<And>a e. in_grid T a e \<Longrightarrow>
            cell out a e = (if in_region x y sz a e then cell G x y else cell T a e)"
      by blast
    have so: "same_outside T out x y sz" using out by (simp add: same_outside_def)
    have "\<exists>a' e'. in_region x y sz a' e' \<and> cell out a e = cell G a' e' \<and>
                   distance32 (cell G a' e') (cell G a e) \<le> int32 (tol * tol)"
      if "in_region x y sz a e" for a e
    proof -
      have "in_grid T a e" using that pT by (simp add: region_in_iff)
      then have c: "cell out a e = cell G x y" using out(3) that by simp
      have d: "distance32 (cell G x y) (cell G a e) \<le> int32 (tol * tol)"
        using True that by (simp add: in_region_def)
      have "in_region x y sz x y" using hpos by (simp add: in_region_def sz)
      then show ?thesis using c d by blast
    qed
    then show ?thesis using e out(1) so by blast
  next
    case False
    have nu: "isUniform G x y sz tol = Inr False" using un False by simp
    have sub: "in_region x y sz a e" if "in_region qx qy h a e"
      "(qx = x \<or> qx = x + h) \<and> (qy = y \<or> qy = y + h)" for qx qy a e
      using that hpos sz by (auto simp: in_region_def)
    have rG: "region_in G x y h" "region_in G (x + h) y h"
      "region_in G (x + h) (y + h) h" "region_in G x (y + h) h"
      by (rule region_in_sub[OF pG], simp add: sub)+
    have rT: "region_in T x y h" "region_in T (x + h) y h"
      "region_in T (x + h) (y + h) h" "region_in T x (y + h) h"
      by (rule region_in_sub[OF pT], simp add: sub)+
    let ?P = "\<lambda>out qx qy. \<forall>a e. in_region qx qy h a e \<longrightarrow>
              (\<exists>a' e'. in_region qx qy h a' e' \<and> cell out a e = cell G a' e' \<and>
                 distance32 (cell G a' e') (cell G a e) \<le> int32 (tol * tol))"
    from IH[OF rG(1) rT(1)] obtain t1 o1 where 1:
      "Encode_tolerance tol G x y h = Inr t1" "Decode T t1 x y h = Inr o1"
      "same_outside T o1 x y h" "?P o1 x y" by blast
    have s1: "map length o1 = map length T" using 1(3) by (simp add: same_outside_def)
    have r1: "region_in o1 (x + h) y h" using rT(2) by (simp add: region_in_shape[OF s1])
    from IH[OF rG(2) r1] obtain t2 o2 where 2:
      "Encode_tolerance tol G (x + h) y h = Inr t2" "Decode o1 t2 (x + h) y h = Inr o2"
      "same_outside o1 o2 (x + h) y h" "?P o2 (x + h) y" by blast
    have s2: "map length o2 = map length T" using 2(3) s1 by (simp add: same_outside_def)
    have r2: "region_in o2 (x + h) (y + h) h" using rT(3) by (simp add: region_in_shape[OF s2])
    from IH[OF rG(3) r2] obtain t3 o3 where 3:
      "Encode_tolerance tol G (x + h) (y + h) h = Inr t3" "Decode o2 t3 (x + h) (y + h) h = Inr o3"
      "same_outside o2 o3 (x + h) (y + h) h" "?P o3 (x + h) (y + h)" by blast
    have s3: "map length o3 = map length T" using 3(3) s2 by (simp add: same_outside_def)
    have r3: "region_in o3 x (y + h) h" using rT(4) by (simp add: region_in_shape[OF s3])
    from IH[OF rG(4) r3] obtain t4 o4 where 4:
      "Encode_tolerance tol G x (y + h) h = Inr t4" "Decode o3 t4 x (y + h) h = Inr o4"
      "same_outside o3 o4 x (y + h) h" "?P o4 x (y + h)" by blast
    have e: "Encode_tolerance tol G x y sz = Inr (QuadNode t1 t2 t3 t4)"
      by (rule Encode_tolerance_split[OF nu]) (simp_all only: half 1 2 3 4)
    have d: "Decode T (QuadNode t1 t2 t3 t4) x y sz = Inr o4"
      using 1(2) 2(2) 3(2) 4(2) by (simp only: Decode.simps half Let_def sum.case)
    have "same_outside T o1 x y sz" by (rule same_outside_mono[OF 1(3)]) (simp add: sub)
    moreover have "same_outside o1 o2 x y sz" by (rule same_outside_mono[OF 2(3)]) (simp add: sub)
    moreover have "same_outside o2 o3 x y sz" by (rule same_outside_mono[OF 3(3)]) (simp add: sub)
    moreover have "same_outside o3 o4 x y sz" by (rule same_outside_mono[OF 4(3)]) (simp add: sub)
    ultimately have so: "same_outside T o4 x y sz" by (blast intro: same_outside_trans)
    have keep2: "cell o2 a e = cell o1 a e" if "in_grid T a e" "\<not> in_region (x + h) y h a e" for a e
      using 2(3) that by (simp add: same_outside_def in_grid_shape[OF s1])
    have keep3: "cell o3 a e = cell o2 a e" if "in_grid T a e" "\<not> in_region (x + h) (y + h) h a e" for a e
      using 3(3) that by (simp add: same_outside_def in_grid_shape[OF s2])
    have keep4: "cell o4 a e = cell o3 a e" if "in_grid T a e" "\<not> in_region x (y + h) h a e" for a e
      using 4(3) that by (simp add: same_outside_def in_grid_shape[OF s3])
    have "\<exists>a' e'. in_region x y sz a' e' \<and> cell o4 a e = cell G a' e' \<and>
                   distance32 (cell G a' e') (cell G a e) \<le> int32 (tol * tol)"
      if ae: "in_region x y sz a e" for a e
    proof -
      have gT: "in_grid T a e" using ae pT by (simp add: region_in_iff)
      consider (nw) "in_region x y h a e" | (ne) "in_region (x + h) y h a e"
        | (se) "in_region (x + h) (y + h) h a e" | (sw) "in_region x (y + h) h a e"
        using ae unfolding in_region_def sz by linarith
      then show ?thesis
      proof cases
        case nw
        then have "cell o4 a e = cell o1 a e"
          using keep2[OF gT] keep3[OF gT] keep4[OF gT] by (simp add: in_region_def)
        moreover from 1(4) nw obtain a' e' where "in_region x y h a' e'"
          "cell o1 a e = cell G a' e'" "distance32 (cell G a' e') (cell G a e) \<le> int32 (tol * tol)"
          by blast
        ultimately show ?thesis using sub[of x y a' e'] by auto
      next
        case ne
        then have "cell o4 a e = cell o2 a e"
          using keep3[OF gT] keep4[OF gT] by (simp add: in_region_def)
        moreover from 2(4) ne obtain a' e' where "in_region (x + h) y h a' e'"
          "cell o2 a e = cell G a' e'" "distance32 (cell G a' e') (cell G a e) \<le> int32 (tol * tol)"
          by blast
        ultimately show ?thesis using sub[of "x + h" y a' e'] by auto
      next
        case se
        then have "cell o4 a e = cell o3 a e"
          using keep4[OF gT] by (simp add: in_region_def)
        moreover from 3(4) se obtain a' e' where "in_region (x + h) (y + h) h a' e'"
          "cell o3 a e = cell G a' e'" "distance32 (cell G a' e') (cell G a e) \<le> int32 (tol * tol)"
          by blast
        ultimately show ?thesis using sub[of "x + h" "y + h" a' e'] by auto
      next
        case sw
        from 4(4) sw obtain a' e' where "in_region x (y + h) h a' e'"
          "cell o4 a e = cell G a' e'" "distance32 (cell G a' e') (cell G a e) \<le> int32 (tol * tol)"
          by blast
        then show ?thesis using sub[of x "y + h" a' e'] by auto
      qed
    qed
    then show ?thesis using e d so by blast
  qed
  then show ?case by (simp only: sz_def)
qed

lemma Encode_tolerance_total:
  assumes tol: "0 \<le> int32 (tol * tol)"
  shows "in_grid img x y \<Longrightarrow> region_in img x y sz \<Longrightarrow>
         \<exists>t. Encode_tolerance tol img x y sz = Inr t"
proof (induction "nat sz" arbitrary: x y sz rule: less_induct)
  case less
  have un: "isUniform img x y sz tol =
     Inr (\<forall>e\<in>{y..<y + sz}. \<forall>k\<in>{x..<x + sz}.
            distance32 (cell img x y) (cell img k e) \<le> int32 (tol * tol))"
    by (rule isUniform_eq[OF less.prems(2,1)])
  show ?case
  proof (cases "\<forall>e\<in>{y..<y + sz}. \<forall>k\<in>{x..<x + sz}.
            distance32 (cell img x y) (cell img k e) \<le> int32 (tol * tol)")
    case True
    then show ?thesis using Encode_tolerance_uniform[OF _ less.prems(1)] un by simp
  next
    case False
    have nu: "isUniform img x y sz tol = Inr False" using un False by simp
    then have pos: "0 < sz" by (rule isUniform_False_positive)
    have "sz \<noteq> 1" using nu isUniform_one[OF less.prems(1) tol] by auto
    then have two: "2 \<le> sz" using pos by simp
    define h where "h = sz sdiv 2"
    have h: "0 < h" "h < sz" "2 * h \<le> sz" using two by (simp_all add: h_def sdiv_2_nonneg)
    have sub: "in_region x y sz a e" if "in_region qx qy h a e"
      "(qx = x \<or> qx = x + h) \<and> (qy = y \<or> qy = y + h)" for qx qy a e
      using that h by (auto simp: in_region_def)
    have r: "region_in img x y h" "region_in img (x + h) y h"
      "region_in img (x + h) (y + h) h" "region_in img x (y + h) h"
      by (rule region_in_sub[OF less.prems(2)], simp add: sub)+
    have m: "nat h < nat sz" using h by simp
    from less.hyps[OF m region_corner[OF h(1) r(1)] r(1)] obtain nw where
      1: "Encode_tolerance tol img x y h = Inr nw" by blast
    from less.hyps[OF m region_corner[OF h(1) r(2)] r(2)] obtain ne where
      2: "Encode_tolerance tol img (x + h) y h = Inr ne" by blast
    from less.hyps[OF m region_corner[OF h(1) r(3)] r(3)] obtain se where
      3: "Encode_tolerance tol img (x + h) (y + h) h = Inr se" by blast
    from less.hyps[OF m region_corner[OF h(1) r(4)] r(4)] obtain sw where
      4: "Encode_tolerance tol img x (y + h) h = Inr sw" by blast
    have "Encode_tolerance tol img x y sz = Inr (QuadNode nw ne se sw)"
      by (rule Encode_tolerance_split[OF nu]) (simp_all only: 1 2 3 4 flip: h_def)
    then show ?thesis by blast
  qed
qed

text \<open>The same for \<open>Encode\<close>, whose tolerance is 10.\<close>

lemma tolerance_10: "0 \<le> int32 (10 * 10)"
  by (simp add: int32_def)

lemma Encode_uniform:
  assumes "isUniform img x y sz 10 = Inr True" and "in_grid img x y"
  shows "Encode img x y sz = Inr (QuadLeaf (cell img x y))"
  using Encode_tolerance_uniform[OF assms] by (simp add: Encode_tolerance_default)

lemma Encode_split:
  assumes "isUniform img x y sz 10 = Inr False"
    and "Encode img x y (sz sdiv 2) = Inr nw"
    and "Encode img (x + sz sdiv 2) y (sz sdiv 2) = Inr ne"
    and "Encode img (x + sz sdiv 2) (y + sz sdiv 2) (sz sdiv 2) = Inr se"
    and "Encode img x (y + sz sdiv 2) (sz sdiv 2) = Inr sw"
  shows "Encode img x y sz = Inr (QuadNode nw ne se sw)"
  using assms by (subst Encode.simps) simp

lemma Encode_total:
  "in_grid img x y \<Longrightarrow> region_in img x y sz \<Longrightarrow> \<exists>t. Encode img x y sz = Inr t"
  using Encode_tolerance_total[OF tolerance_10, of img x y sz]
  by (simp add: Encode_tolerance_default)

subsection \<open>One step of Encode\<close>

text \<open>
  C3: for every grid of 8-bit colours, position \<open>(x, y)\<close> and power-of-two size \<open>sz\<close> whose
  region lies in the grid, \<open>Encode\<close> returns a leaf exactly when every pixel of the region is at squared
  colour distance at most \<open>10 * 10\<close> from the top-left pixel \<open>img[y][x]\<close>, and the leaf then
  holds that pixel; otherwise it returns an internal node whose four children are, in this
  order, the encodings of the quadrants of side \<open>sz div 2\<close> at \<open>(x, y)\<close>, \<open>(x + half, y)\<close>,
  \<open>(x + half, y + half)\<close> and \<open>(x, y + half)\<close>. The tolerance is the 10 of the encoder.
\<close>

theorem Encode_leaf_or_four_quadrants:
  assumes "IsPowerOfTwo sz" and "region_in img x y sz" and "grid_8bit img"
  shows "(\<forall>c. Encode img x y sz = Inr (QuadLeaf c) \<longleftrightarrow>
            c = cell img x y \<and>
            (\<forall>j\<in>{y..<y + sz}. \<forall>i\<in>{x..<x + sz}.
               distanceSquared (cell img x y) (cell img i j) \<le> 10 * 10)) \<and>
         ((\<exists>j\<in>{y..<y + sz}. \<exists>i\<in>{x..<x + sz}.
               distanceSquared (cell img x y) (cell img i j) > 10 * 10) \<longrightarrow>
            (\<exists>nw ne se sw.
               Encode img x y (sz div 2) = Inr nw \<and>
               Encode img (x + sz div 2) y (sz div 2) = Inr ne \<and>
               Encode img (x + sz div 2) (y + sz div 2) (sz div 2) = Inr se \<and>
               Encode img x (y + sz div 2) (sz div 2) = Inr sw \<and>
               Encode img x y sz = Inr (QuadNode nw ne se sw)))"
proof -
  have pos: "0 < sz" using assms(1) by (simp add: IsPowerOfTwo_def)
  have g: "in_grid img x y" by (rule region_corner[OF pos assms(2)])
  let ?U = "\<forall>j\<in>{y..<y + sz}. \<forall>i\<in>{x..<x + sz}.
               distanceSquared (cell img x y) (cell img i j) \<le> 10 * 10"
  have un: "isUniform img x y sz 10 = Inr ?U"
    using isUniform_8bit[OF assms(2) g assms(3), of 10] by simp
  have leaf: "Encode img x y sz = Inr (QuadLeaf (cell img x y))" if "?U"
    using Encode_uniform[OF _ g] un that by simp
  have node: "\<exists>nw ne se sw.
               Encode img x y (sz div 2) = Inr nw \<and>
               Encode img (x + sz div 2) y (sz div 2) = Inr ne \<and>
               Encode img (x + sz div 2) (y + sz div 2) (sz div 2) = Inr se \<and>
               Encode img x (y + sz div 2) (sz div 2) = Inr sw \<and>
               Encode img x y sz = Inr (QuadNode nw ne se sw)" if "\<not> ?U"
  proof -
    have nu: "isUniform img x y sz 10 = Inr False" using un that by simp
    have "sz \<noteq> 1" using nu isUniform_one[OF g tolerance_10] by auto
    then have two: "2 \<le> sz" using pos by simp
    define h where "h = sz div 2"
    have hs: "sz sdiv 2 = h" using pos by (simp add: h_def sdiv_2_nonneg)
    have h: "0 < h" "2 * h \<le> sz" using two by (simp_all add: h_def)
    have sub: "in_region x y sz a e" if "in_region qx qy h a e"
      "(qx = x \<or> qx = x + h) \<and> (qy = y \<or> qy = y + h)" for qx qy a e
      using that h by (auto simp: in_region_def)
    have r: "region_in img x y h" "region_in img (x + h) y h"
      "region_in img (x + h) (y + h) h" "region_in img x (y + h) h"
      by (rule region_in_sub[OF assms(2)], simp add: sub)+
    from Encode_total[OF region_corner[OF h(1) r(1)] r(1)] obtain nw where
      1: "Encode img x y h = Inr nw" by blast
    from Encode_total[OF region_corner[OF h(1) r(2)] r(2)] obtain ne where
      2: "Encode img (x + h) y h = Inr ne" by blast
    from Encode_total[OF region_corner[OF h(1) r(3)] r(3)] obtain se where
      3: "Encode img (x + h) (y + h) h = Inr se" by blast
    from Encode_total[OF region_corner[OF h(1) r(4)] r(4)] obtain sw where
      4: "Encode img x (y + h) h = Inr sw" by blast
    have "Encode img x y sz = Inr (QuadNode nw ne se sw)"
      by (rule Encode_split[OF nu]) (simp_all only: 1 2 3 4 hs)
    then show ?thesis using 1 2 3 4 unfolding h_def by blast
  qed
  have iff: "Encode img x y sz = Inr (QuadLeaf c) \<longleftrightarrow> c = cell img x y \<and> ?U" for c
  proof (cases "?U")
    case True
    then show ?thesis using leaf by auto
  next
    case False
    from node[OF this] show ?thesis using False by auto
  qed
  have "\<not> ?U" if "\<exists>j\<in>{y..<y + sz}. \<exists>i\<in>{x..<x + sz}.
               distanceSquared (cell img x y) (cell img i j) > 10 * 10"
    using that by (auto simp: not_le)
  then show ?thesis using iff node by blast
qed

theorem Encode_leaf_or_four_quadrants_witness:
  "IsPowerOfTwo 2 \<and>
   region_in [[black, \<lparr>r = 255, g = 255, b = 255\<rparr>], [black, black]] 0 0 2 \<and>
   grid_8bit [[black, \<lparr>r = 255, g = 255, b = 255\<rparr>], [black, black]] \<and>
   (\<exists>nw ne se sw.
      Encode [[black, \<lparr>r = 255, g = 255, b = 255\<rparr>], [black, black]] 0 0 1 = Inr nw \<and>
      Encode [[black, \<lparr>r = 255, g = 255, b = 255\<rparr>], [black, black]] 1 0 1 = Inr ne \<and>
      Encode [[black, \<lparr>r = 255, g = 255, b = 255\<rparr>], [black, black]] 1 1 1 = Inr se \<and>
      Encode [[black, \<lparr>r = 255, g = 255, b = 255\<rparr>], [black, black]] 0 1 1 = Inr sw \<and>
      Encode [[black, \<lparr>r = 255, g = 255, b = 255\<rparr>], [black, black]] 0 0 2 =
        Inr (QuadNode nw ne se sw))"
proof -
  let ?G = "[[black, \<lparr>r = 255, g = 255, b = 255\<rparr>], [black, black]]"
  have p: "IsPowerOfTwo 2" by (simp add: IsPowerOfTwo_def)
  have q: "region_in ?G 0 0 2" by (simp add: region_in_def in_grid_def int_range_unfold)
  have e: "grid_8bit ?G" by (simp add: grid_8bit_def channels_8bit_def black_def)
  have v: "\<exists>j\<in>{0..<0 + 2}. \<exists>i\<in>{0..<0 + 2}.
             distanceSquared (cell ?G 0 0) (cell ?G i j) > 10 * 10"
    by (simp add: int_range_unfold cell_def distanceSquared_def black_def)
  have n: "(2::int) div 2 = 1" "(0::int) + 1 = 1" by simp_all
  from Encode_leaf_or_four_quadrants[OF p q e] v
  have "\<exists>nw ne se sw.
      Encode ?G 0 0 (2 div 2) = Inr nw \<and> Encode ?G (0 + 2 div 2) 0 (2 div 2) = Inr ne \<and>
      Encode ?G (0 + 2 div 2) (0 + 2 div 2) (2 div 2) = Inr se \<and>
      Encode ?G 0 (0 + 2 div 2) (2 div 2) = Inr sw \<and>
      Encode ?G 0 0 2 = Inr (QuadNode nw ne se sw)"
    by blast
  then have "\<exists>nw ne se sw.
      Encode ?G 0 0 1 = Inr nw \<and> Encode ?G 1 0 1 = Inr ne \<and> Encode ?G 1 1 1 = Inr se \<and>
      Encode ?G 0 1 1 = Inr sw \<and> Encode ?G 0 0 2 = Inr (QuadNode nw ne se sw)"
    by (simp only: n)
  then show ?thesis using p q e by blast
qed

subsection \<open>No validation of the arguments\<close>

text \<open>
  C4, as stated, fails: neither \<open>Encode\<close> nor \<open>Decode\<close> looks at the shape of the grid or
  tests the size. With size 3 on a 3 by 3 grid \<open>Encode\<close> returns a tree of four leaves of
  side 1 and never visits the last row and column; \<open>Decode\<close> with size 3 writes the four
  cells and leaves the rest; and a 2 by 4 grid is encoded with size 2.
\<close>

theorem Encode_Decode_accept_any_size:
  "\<not> IsPowerOfTwo 3 \<and>
   Encode [[black, black, black], [black, black, black],
           [black, black, \<lparr>r = 255, g = 255, b = 255\<rparr>]] 0 0 3 =
     Inr (QuadNode (QuadLeaf black) (QuadLeaf black) (QuadLeaf black) (QuadLeaf black)) \<and>
   Decode [[\<lparr>r = 7, g = 7, b = 7\<rparr>, \<lparr>r = 7, g = 7, b = 7\<rparr>, \<lparr>r = 7, g = 7, b = 7\<rparr>],
           [\<lparr>r = 7, g = 7, b = 7\<rparr>, \<lparr>r = 7, g = 7, b = 7\<rparr>, \<lparr>r = 7, g = 7, b = 7\<rparr>],
           [\<lparr>r = 7, g = 7, b = 7\<rparr>, \<lparr>r = 7, g = 7, b = 7\<rparr>, \<lparr>r = 7, g = 7, b = 7\<rparr>]]
          (QuadNode (QuadLeaf black) (QuadLeaf black) (QuadLeaf black) (QuadLeaf black)) 0 0 3 =
     Inr [[black, black, \<lparr>r = 7, g = 7, b = 7\<rparr>],
          [black, black, \<lparr>r = 7, g = 7, b = 7\<rparr>],
          [\<lparr>r = 7, g = 7, b = 7\<rparr>, \<lparr>r = 7, g = 7, b = 7\<rparr>, \<lparr>r = 7, g = 7, b = 7\<rparr>]] \<and>
   \<not> IsValidImageSize \<lparr>data = [[black, black, black, black], [black, black, black, black]],
                          w_rec = 4, h_rec = 2\<rparr> \<and>
   Encode [[black, black, black, black], [black, black, black, black]] 0 0 2 =
     Inr (QuadLeaf black)"
  by (simp add: IsPowerOfTwo_def IsValidImageSize_def width_def height_def Encode.simps
      isUniform_def isUniform_rows.simps isUniform_cols.simps read_at_def write_at_def
      in_grid_def cell_def distance32_def int32_def for_loop.simps black_def sdiv_2_nonneg)

text \<open>
  C4, amended: \<open>Encode\<close> and \<open>Decode\<close> validate neither the size nor the shape of the grid and
  signal no invalid-argument error. For every size of at least 1, a power of two or not, and
  every grid, square or not, that contains the region of that size at \<open>(x, y)\<close>, \<open>Encode\<close>
  returns a tree, and \<open>Decode\<close> of that tree into any target containing the region returns a
  grid.
\<close>

theorem Encode_Decode_no_validation:
  assumes "0 < sz" and "region_in img x y sz" and "region_in target x y sz"
  shows "\<exists>t out. Encode img x y sz = Inr t \<and> Decode target t x y sz = Inr out"
proof -
  from Encode_total[OF region_corner[OF assms(1,2)] assms(2)] obtain t where
    t: "Encode img x y sz = Inr t" by blast
  from Decode_frame[OF assms(3), of t] t show ?thesis by blast
qed

theorem Encode_Decode_no_validation_witness:
  "(0::int) < 3 \<and> \<not> IsPowerOfTwo 3 \<and>
   region_in [[black, black, black], [black, black, black], [black, black, black]] 0 0 3 \<and>
   (\<exists>t out.
      Encode [[black, black, black], [black, black, black], [black, black, black]] 0 0 3 = Inr t \<and>
      Decode [[black, black, black], [black, black, black], [black, black, black]] t 0 0 3 =
        Inr out)"
proof -
  let ?G = "[[black, black, black], [black, black, black], [black, black, black]]"
  have p: "(0::int) < 3" by simp
  have n: "\<not> IsPowerOfTwo 3" by (simp add: IsPowerOfTwo_def)
  have q: "region_in ?G 0 0 3" by (simp add: region_in_def in_grid_def int_range_unfold)
  from Encode_Decode_no_validation[OF p q q] obtain t out where
    e: "Encode ?G 0 0 3 = Inr t" and d: "Decode ?G t 0 0 3 = Inr out" by blast
  show ?thesis by (intro conjI exI[of _ t] exI[of _ out]) (rule p n q e d)+
qed

subsection \<open>Square grids\<close>

lemma square_in_grid:
  assumes "square_grid img n"
  shows "in_grid img a e \<longleftrightarrow> in_region 0 0 n a e"
proof -
  have "length (img ! nat e) = nat n" if "0 \<le> e" "e < n"
  proof -
    have "nat e < length img" using assms that by (auto simp: square_grid_def)
    then have "img ! nat e \<in> set img" by simp
    then show ?thesis using assms by (auto simp: square_grid_def)
  qed
  then show ?thesis using assms by (auto simp: in_grid_def in_region_def square_grid_def)
qed

lemma square_region_in: "square_grid img n \<Longrightarrow> region_in img 0 0 n"
  by (simp add: region_in_iff square_in_grid)

lemma square_grid_shape:
  assumes "square_grid img n" and "map length out = map length img"
  shows "square_grid out n"
proof -
  have "length out = length img" using assms(2) by (rule map_eq_imp_length_eq)
  moreover have "set (map length out) = set (map length img)" using assms(2) by simp
  then have "length ` set out = length ` set img" by simp
  ultimately show ?thesis using assms(1) unfolding square_grid_def
    by (metis (no_types, lifting) image_iff)
qed

lemma grid_eqI:
  assumes "map length A = map length B"
    and "\<And>a e. in_grid B a e \<Longrightarrow> cell A a e = cell B a e"
  shows "A = B"
proof (rule nth_equalityI)
  show l: "length A = length B" using assms(1) by (rule map_eq_imp_length_eq)
  fix j assume j: "j < length A"
  have lj: "length (A ! j) = length (B ! j)" using assms(1) j l by (metis nth_map)
  show "A ! j = B ! j"
  proof (rule nth_equalityI)
    show "length (A ! j) = length (B ! j)" by (rule lj)
    fix i assume i: "i < length (A ! j)"
    have "in_grid B (int i) (int j)" using i j l lj by (simp add: in_grid_def)
    from assms(2)[OF this] show "A ! j ! i = B ! j ! i" by (simp add: cell_def)
  qed
qed

subsection \<open>The round trip\<close>

text \<open>
  C1: for every square grid \<open>G\<close> of 8-bit colours whose side \<open>sz\<close> is a power of two,
  \<open>Encode\<close> returns a tree, and decoding that tree into any square target of side \<open>sz\<close>
  returns a square grid of side \<open>sz\<close> in which every pixel is at squared colour distance at
  most \<open>10 * 10\<close> from the pixel of \<open>G\<close> at the same place; 10 is the tolerance of the encoder.
\<close>

theorem Encode_Decode_within_tolerance:
  assumes "IsPowerOfTwo sz" and "square_grid G sz" and "grid_8bit G"
    and "square_grid target sz"
  shows "\<exists>t out. Encode G 0 0 sz = Inr t \<and> Decode target t 0 0 sz = Inr out \<and>
           square_grid out sz \<and>
           (\<forall>j\<in>{0..<sz}. \<forall>i\<in>{0..<sz}. distanceSquared (cell out i j) (cell G i j) \<le> 10 * 10)"
proof -
  from IsPowerOfTwo_pow2[OF assms(1)] obtain k where k: "sz = 2 ^ k" by blast
  have rG: "region_in G 0 0 (2 ^ k)" and rT: "region_in target 0 0 (2 ^ k)"
    using assms(2,4) k by (simp_all add: square_region_in)
  from codec_region[OF rG rT tolerance_10] obtain t out where
    r: "Encode_tolerance 10 G 0 0 (2 ^ k) = Inr t" "Decode target t 0 0 (2 ^ k) = Inr out"
      "same_outside target out 0 0 (2 ^ k)"
      "\<forall>a e. in_region 0 0 (2 ^ k) a e \<longrightarrow>
         (\<exists>a' e'. in_region 0 0 (2 ^ k) a' e' \<and> cell out a e = cell G a' e' \<and>
            distance32 (cell G a' e') (cell G a e) \<le> int32 (10 * 10))"
    by blast
  have enc: "Encode G 0 0 sz = Inr t" using r(1) k by (simp add: Encode_tolerance_default)
  have sq: "square_grid out sz"
    using square_grid_shape[OF assms(4)] r(3) by (simp add: same_outside_def)
  have "distanceSquared (cell out i j) (cell G i j) \<le> 10 * 10"
    if "j \<in> {0..<sz}" "i \<in> {0..<sz}" for i j
  proof -
    have "in_region 0 0 (2 ^ k) i j" using that k by (simp add: in_region_def)
    with r(4) obtain a' e' where p: "in_region 0 0 (2 ^ k) a' e'" "cell out i j = cell G a' e'"
      "distance32 (cell G a' e') (cell G i j) \<le> int32 (10 * 10)" by blast
    have "channels_8bit (cell G a' e')" "channels_8bit (cell G i j)"
      using p(1) \<open>in_region 0 0 (2 ^ k) i j\<close> assms(2,3) k
      by (simp_all add: grid_8bit_cell square_in_grid)
    then have "distance32 (cell G a' e') (cell G i j) = distanceSquared (cell G a' e') (cell G i j)"
      by (rule distance32_8bit)
    then show ?thesis using p(2,3) by (simp add: int32_def)
  qed
  then show ?thesis using enc r(2) sq k by blast
qed

theorem Encode_Decode_within_tolerance_witness:
  "IsPowerOfTwo 2 \<and>
   square_grid [[\<lparr>r = 0, g = 0, b = 0\<rparr>, \<lparr>r = 6, g = 6, b = 5\<rparr>],
                [\<lparr>r = 200, g = 0, b = 0\<rparr>, \<lparr>r = 0, g = 0, b = 9\<rparr>]] 2 \<and>
   grid_8bit [[\<lparr>r = 0, g = 0, b = 0\<rparr>, \<lparr>r = 6, g = 6, b = 5\<rparr>],
              [\<lparr>r = 200, g = 0, b = 0\<rparr>, \<lparr>r = 0, g = 0, b = 9\<rparr>]] \<and>
   square_grid [[black, black], [black, black]] 2 \<and>
   (\<exists>t out. Encode [[\<lparr>r = 0, g = 0, b = 0\<rparr>, \<lparr>r = 6, g = 6, b = 5\<rparr>],
                      [\<lparr>r = 200, g = 0, b = 0\<rparr>, \<lparr>r = 0, g = 0, b = 9\<rparr>]] 0 0 2 = Inr t \<and>
      Decode [[black, black], [black, black]] t 0 0 2 = Inr out \<and> square_grid out 2 \<and>
      distanceSquared (cell out 1 0) \<lparr>r = 6, g = 6, b = 5\<rparr> \<le> 10 * 10)"
proof -
  let ?G = "[[\<lparr>r = 0, g = 0, b = 0\<rparr>, \<lparr>r = 6, g = 6, b = 5\<rparr>],
             [\<lparr>r = 200, g = 0, b = 0\<rparr>, \<lparr>r = 0, g = 0, b = 9\<rparr>]]"
  let ?T = "[[black, black], [black, black]]"
  have p: "IsPowerOfTwo 2" by (simp add: IsPowerOfTwo_def)
  have g: "square_grid ?G 2" by (simp add: square_grid_def)
  have e8: "grid_8bit ?G" by (simp add: grid_8bit_def channels_8bit_def)
  have t: "square_grid ?T 2" by (simp add: square_grid_def)
  have c: "cell ?G 1 0 = \<lparr>r = 6, g = 6, b = 5\<rparr>" by (simp add: cell_def)
  from Encode_Decode_within_tolerance[OF p g e8 t] obtain tr out where
    e: "Encode ?G 0 0 2 = Inr tr" and d: "Decode ?T tr 0 0 2 = Inr out" and
    s: "square_grid out 2" and
    b: "\<forall>j\<in>{0..<2}. \<forall>i\<in>{0..<2}. distanceSquared (cell out i j) (cell ?G i j) \<le> 10 * 10"
    by blast
  have "distanceSquared (cell out 1 0) (cell ?G 1 0) \<le> 10 * 10"
    using b by (simp add: int_range_unfold)
  then have b': "distanceSquared (cell out 1 0) \<lparr>r = 6, g = 6, b = 5\<rparr> \<le> 10 * 10"
    by (simp only: c)
  show ?thesis by (intro conjI exI[of _ tr] exI[of _ out]) (rule p g e8 t e d s b')+
qed



subsection \<open>A grid with one differing pixel\<close>









subsection \<open>The cells Decode writes\<close>

text \<open>
  C8: for every tree, position \<open>(x, y)\<close> and size (a power of two or not), and every target
  grid that contains the region of that side at \<open>(x, y)\<close>, \<open>Decode\<close> returns a grid of the
  same dimensions in which every cell outside the region is unchanged; and what it writes
  does not depend on what the target held: run on any second target, every cell either
  ends with the same colour in both runs or is left in both as it was.
\<close>

theorem Decode_writes_only_region:
  assumes "region_in target x y sz"
  shows "\<exists>out. Decode target t x y sz = Inr out \<and>
           map length out = map length target \<and>
           (\<forall>a e. in_grid target a e \<and> \<not> in_region x y sz a e \<longrightarrow>
              cell out a e = cell target a e) \<and>
           (\<forall>target2 out2. region_in target2 x y sz \<and> Decode target2 t x y sz = Inr out2 \<longrightarrow>
              (\<forall>a e. in_grid target a e \<and> in_grid target2 a e \<longrightarrow>
                 cell out a e = cell out2 a e \<or>
                 (cell out a e = cell target a e \<and> cell out2 a e = cell target2 a e)))"
proof -
  from Decode_frame[OF assms, of t] obtain out where
    out: "Decode target t x y sz = Inr out" "same_outside target out x y sz"
    by blast
  have "written_alike target target2 out out2"
    if "region_in target2 x y sz" "Decode target2 t x y sz = Inr out2" for target2 out2
    by (rule Decode_independent[OF assms that(1) out(1) that(2)])
  then show ?thesis
    using out unfolding same_outside_def written_alike_def by blast
qed

theorem Decode_writes_only_region_witness:
  "region_in [[black, black, black], [black, black, black]] 0 0 2 \<and>
   (\<exists>out. Decode [[black, black, black], [black, black, black]]
            (QuadNode (QuadLeaf \<lparr>r = 255, g = 255, b = 255\<rparr>) (QuadLeaf black)
               (QuadLeaf \<lparr>r = 9, g = 9, b = 9\<rparr>) (QuadLeaf black)) 0 0 2 = Inr out \<and>
          map length out = [3, 3] \<and> cell out 2 0 = black \<and> cell out 2 1 = black)"
proof -
  let ?T = "[[black, black, black], [black, black, black]]"
  let ?t = "QuadNode (QuadLeaf \<lparr>r = 255, g = 255, b = 255\<rparr>) (QuadLeaf black)
               (QuadLeaf \<lparr>r = 9, g = 9, b = 9\<rparr>) (QuadLeaf black)"
  have h: "region_in ?T 0 0 2"
    by (simp add: region_in_def in_grid_def int_range_unfold)
  have o: "in_grid ?T 2 0 \<and> \<not> in_region 0 0 2 2 0" "in_grid ?T 2 1 \<and> \<not> in_region 0 0 2 2 1"
    by (simp_all add: in_grid_def in_region_def)
  have c: "cell ?T 2 0 = black" "cell ?T 2 1 = black" "map length ?T = [3, 3]"
    by (simp_all add: cell_def)
  from Decode_writes_only_region[OF h, of ?t] obtain out where
    d: "Decode ?T ?t 0 0 2 = Inr out" and l: "map length out = map length ?T" and
    f: "\<forall>a e. in_grid ?T a e \<and> \<not> in_region 0 0 2 a e \<longrightarrow> cell out a e = cell ?T a e"
    by blast
  have c0: "cell out 2 0 = black" using f o(1) c(1) by metis
  have c1: "cell out 2 1 = black" using f o(2) c(2) by metis
  have l': "map length out = [3, 3]" using l c(3) by metis
  show ?thesis by (intro conjI exI[of _ out]) (rule h d l' c0 c1)+
qed

subsection \<open>Loops that fill an image\<close>

lemma Image_put_ok:
  assumes "in_grid (data t) x y"
  shows "\<exists>t'. Image_put t x y c = Inr t' \<and> t' = t\<lparr>data := data t'\<rparr> \<and>
           map length (data t') = map length (data t) \<and>
           (\<forall>a e. in_grid (data t) a e \<longrightarrow>
              cell (data t') a e = (if a = x \<and> e = y then c else cell (data t) a e))"
proof -
  from write_at_ok[OF assms, of c] obtain d where d: "write_at (data t) x y c = Inr d"
    "map length d = map length (data t)"
    "\<forall>a e. in_grid (data t) a e \<longrightarrow> cell d a e = (if a = x \<and> e = y then c else cell (data t) a e)"
    by blast
  have "Image_put t x y c = Inr (t\<lparr>data := d\<rparr>)" using d(1) by (simp add: Image_put_def)
  then show ?thesis using d(2,3) by simp
qed

lemma fill_image_row:
  assumes body: "\<And>x t. x0 \<le> x \<Longrightarrow> x < w \<Longrightarrow> body x t = Image_put t x y (f x)"
    and grid: "\<forall>x\<in>{x0..<w}. in_grid (data t0) x y"
  shows "\<exists>t. for_loop x0 w body t0 = Inr t \<and> t = t0\<lparr>data := data t\<rparr> \<and>
           map length (data t) = map length (data t0) \<and>
           (\<forall>a e. in_grid (data t0) a e \<longrightarrow>
              cell (data t) a e = (if e = y \<and> x0 \<le> a \<and> a < w then f a else cell (data t0) a e))"
proof (cases "x0 \<le> w")
  case False
  then show ?thesis by (simp add: for_loop_done)
next
  case True
  define I where "I k s \<longleftrightarrow> s = t0\<lparr>data := data s\<rparr> \<and>
     map length (data s) = map length (data t0) \<and>
     (\<forall>a e. in_grid (data t0) a e \<longrightarrow>
        cell (data s) a e = (if e = y \<and> x0 \<le> a \<and> a < k then f a else cell (data t0) a e))" for k s
  have "\<exists>t. for_loop x0 w body t0 = Inr t \<and> I w t"
  proof (rule for_loop_invariant)
    show "I x0 t0" by (simp add: I_def)
    show "x0 \<le> w" by (rule True)
    fix k t assume k: "x0 \<le> k" "k < w" and t: "I k t"
    have sh: "map length (data t) = map length (data t0)" using t by (simp add: I_def)
    have "in_grid (data t0) k y" using grid k by simp
    then have "in_grid (data t) k y" by (simp add: in_grid_shape[OF sh])
    from Image_put_ok[OF this, of "f k"] obtain t' where t': "Image_put t k y (f k) = Inr t'"
      "t' = t\<lparr>data := data t'\<rparr>"
      "map length (data t') = map length (data t)"
      "\<And>a e. in_grid (data t) a e \<Longrightarrow>
          cell (data t') a e = (if a = k \<and> e = y then f k else cell (data t) a e)"
      by blast
    have "I (k + 1) t'"
      unfolding I_def
    proof (intro conjI allI impI)
      have "t = t0\<lparr>data := data t\<rparr>" using t by (simp add: I_def)
      then show "t' = t0\<lparr>data := data t'\<rparr>" using t'(2) by (metis Image.surjective Image.update_convs(1))
      show "map length (data t') = map length (data t0)" using t' sh by simp
      fix a e assume g: "in_grid (data t0) a e"
      then have "in_grid (data t) a e" by (simp add: in_grid_shape[OF sh])
      then have "cell (data t') a e = (if a = k \<and> e = y then f k else cell (data t) a e)"
        by (rule t'(4))
      moreover have "cell (data t) a e =
          (if e = y \<and> x0 \<le> a \<and> a < k then f a else cell (data t0) a e)"
        using t g by (simp add: I_def)
      ultimately show "cell (data t') a e =
          (if e = y \<and> x0 \<le> a \<and> a < k + 1 then f a else cell (data t0) a e)"
        using k by auto
    qed
    then show "\<exists>t'. body k t = Inr t' \<and> I (k + 1) t'" using t' body[OF k] by simp
  qed
  then show ?thesis by (simp add: I_def)
qed

lemma fill_image:
  assumes body: "\<And>x y t. 0 \<le> x \<Longrightarrow> x < w \<Longrightarrow> y0 \<le> y \<Longrightarrow> y < h \<Longrightarrow>
                   body y x t = Image_put t x y (f x y)"
    and grid: "\<forall>y\<in>{y0..<h}. \<forall>x\<in>{0..<w}. in_grid (data t0) x y"
  shows "\<exists>t. for_loop y0 h (\<lambda>y. for_loop 0 w (body y)) t0 = Inr t \<and> t = t0\<lparr>data := data t\<rparr> \<and>
           map length (data t) = map length (data t0) \<and>
           (\<forall>a e. in_grid (data t0) a e \<longrightarrow>
              cell (data t) a e =
                (if y0 \<le> e \<and> e < h \<and> 0 \<le> a \<and> a < w then f a e else cell (data t0) a e))"
proof (cases "y0 \<le> h")
  case False
  then show ?thesis by (simp add: for_loop_done)
next
  case True
  define I where "I k s \<longleftrightarrow> s = t0\<lparr>data := data s\<rparr> \<and>
     map length (data s) = map length (data t0) \<and>
     (\<forall>a e. in_grid (data t0) a e \<longrightarrow>
        cell (data s) a e =
          (if y0 \<le> e \<and> e < k \<and> 0 \<le> a \<and> a < w then f a e else cell (data t0) a e))" for k s
  have "\<exists>t. for_loop y0 h (\<lambda>y. for_loop 0 w (body y)) t0 = Inr t \<and> I h t"
  proof (rule for_loop_invariant)
    show "I y0 t0" by (simp add: I_def)
    show "y0 \<le> h" by (rule True)
    fix k t assume k: "y0 \<le> k" "k < h" and t: "I k t"
    have sh: "map length (data t) = map length (data t0)" using t by (simp add: I_def)
    have "\<forall>x\<in>{0..<w}. in_grid (data t0) x k" using grid k by simp
    then have gr: "\<forall>x\<in>{0..<w}. in_grid (data t) x k" by (simp add: in_grid_shape[OF sh])
    have bd: "body k x s = Image_put s x k (f x k)" if "0 \<le> x" "x < w" for x s
      using body[OF that k] .
    from fill_image_row[of 0 w "body k" k "\<lambda>x. f x k" t, OF bd gr] obtain t' where t':
      "for_loop 0 w (body k) t = Inr t'" "t' = t\<lparr>data := data t'\<rparr>"
      "map length (data t') = map length (data t)"
      "\<And>a e. in_grid (data t) a e \<Longrightarrow>
          cell (data t') a e = (if e = k \<and> 0 \<le> a \<and> a < w then f a k else cell (data t) a e)"
      by blast
    have "I (k + 1) t'"
      unfolding I_def
    proof (intro conjI allI impI)
      have "t = t0\<lparr>data := data t\<rparr>" using t by (simp add: I_def)
      then show "t' = t0\<lparr>data := data t'\<rparr>" using t'(2) by (metis Image.surjective Image.update_convs(1))
      show "map length (data t') = map length (data t0)" using t' sh by simp
      fix a e assume g: "in_grid (data t0) a e"
      then have "in_grid (data t) a e" by (simp add: in_grid_shape[OF sh])
      then have "cell (data t') a e =
          (if e = k \<and> 0 \<le> a \<and> a < w then f a k else cell (data t) a e)"
        by (rule t'(4))
      moreover have "cell (data t) a e =
          (if y0 \<le> e \<and> e < k \<and> 0 \<le> a \<and> a < w then f a e else cell (data t0) a e)"
        using t g by (simp add: I_def)
      ultimately show "cell (data t') a e =
          (if y0 \<le> e \<and> e < k + 1 \<and> 0 \<le> a \<and> a < w then f a e else cell (data t0) a e)"
        using k by auto
    qed
    then show "\<exists>t'. for_loop 0 w (body k) t = Inr t' \<and> I (k + 1) t'" using t' by blast
  qed
  then show ?thesis by (simp add: I_def)
qed

lemma in_grid_replicate:
  "in_grid (replicate (nat h) (replicate (nat w) c)) a e \<longleftrightarrow> 0 \<le> a \<and> a < w \<and> 0 \<le> e \<and> e < h"
  by (auto simp: in_grid_def split: if_splits)

lemma cell_replicate:
  "0 \<le> a \<Longrightarrow> a < w \<Longrightarrow> 0 \<le> e \<Longrightarrow> e < h \<Longrightarrow>
   cell (replicate (nat h) (replicate (nat w) c)) a e = c"
  by (simp add: cell_def)

lemma Resize_eq:
  assumes "0 \<le> w" and "0 \<le> h" and "recorded_in_data img"
  shows "\<exists>out. Resize img w h = Inr out \<and> w_rec out = w \<and> h_rec out = h \<and>
           map length (data out) = replicate (nat h) (nat w) \<and>
           (\<forall>a e. 0 \<le> a \<and> a < w \<and> 0 \<le> e \<and> e < h \<longrightarrow>
              cell (data out) a e =
                (if a < w_rec img \<and> e < h_rec img then cell (data img) a e else black))"
proof -
  define t0 where "t0 = \<lparr>data = replicate (nat h) (replicate (nat w) black), w_rec = w, h_rec = h\<rparr>"
  define body where "body = (\<lambda>y x t.
            if x < w_rec img \<and> y < h_rec img then
              (case Image_at img x y of
                 Inl e \<Rightarrow> Inl e
               | Inr c \<Rightarrow> Image_put t x y c)
            else Image_put t x y black)"
  define f where "f = (\<lambda>x y. if x < w_rec img \<and> y < h_rec img then cell (data img) x y else black)"
  have new: "Image_new w h = Inr t0" using assms(1,2) by (simp add: Image_new_def t0_def)
  have rs: "Resize img w h = for_loop 0 h (\<lambda>y. for_loop 0 w (body y)) t0"
    by (simp add: Resize_def new body_def)
  have bd: "body y x t = Image_put t x y (f x y)" if "0 \<le> x" "x < w" "0 \<le> y" "y < h" for x y t
  proof (cases "x < w_rec img \<and> y < h_rec img")
    case True
    then have "in_grid (data img) x y" using assms(3) that by (simp add: recorded_in_data_def)
    then show ?thesis using True by (simp add: body_def f_def Image_at_def read_at_in)
  next
    case False
    then show ?thesis by (auto simp: body_def f_def)
  qed
  have gr: "\<forall>y\<in>{0..<h}. \<forall>x\<in>{0..<w}. in_grid (data t0) x y"
    by (simp add: t0_def in_grid_replicate)
  from fill_image[of w 0 h body f t0, OF bd gr] obtain out where out:
    "for_loop 0 h (\<lambda>y. for_loop 0 w (body y)) t0 = Inr out" "out = t0\<lparr>data := data out\<rparr>"
    "map length (data out) = map length (data t0)"
    "\<forall>a e. in_grid (data t0) a e \<longrightarrow>
        cell (data out) a e =
          (if 0 \<le> e \<and> e < h \<and> 0 \<le> a \<and> a < w then f a e else cell (data t0) a e)"
    by blast
  have "w_rec out = w" "h_rec out = h"
    using out(2) by (metis Image.select_convs(2) Image.update_convs(1) t0_def,
        metis Image.select_convs(3) Image.update_convs(1) t0_def)
  moreover have "map length (data out) = replicate (nat h) (nat w)"
    using out(3) by (simp add: t0_def)
  moreover have "cell (data out) a e =
      (if a < w_rec img \<and> e < h_rec img then cell (data img) a e else black)"
    if "0 \<le> a \<and> a < w \<and> 0 \<le> e \<and> e < h" for a e
  proof -
    have "in_grid (data t0) a e" using that by (simp add: t0_def in_grid_replicate)
    then show ?thesis using out(4) that by (simp add: f_def)
  qed
  ultimately show ?thesis using rs out(1) by simp
qed

lemma grow_size_pow2:
  assumes "\<forall>j<i. (2::int) ^ j < m"
  shows "\<exists>k. grow_size (2 ^ i) m = Some (2 ^ k) \<and> m \<le> 2 ^ k \<and> (\<forall>j<k. (2::int) ^ j < m)"
  using assms
proof (induction "nat (m - 2 ^ i)" arbitrary: i rule: less_induct)
  case less
  show ?case
  proof (cases "(2::int) ^ i < m")
    case False
    then have "grow_size (2 ^ i) m = Some (2 ^ i)" by (subst grow_size.simps) simp
    then show ?thesis using False less.prems by auto
  next
    case True
    have step: "grow_size (2 ^ i) m = grow_size (2 ^ Suc i) m"
      using True by (subst grow_size.simps) (simp add: mult.commute)
    have "nat (m - 2 ^ Suc i) < nat (m - 2 ^ i)" using True by simp
    moreover have "\<forall>j<Suc i. (2::int) ^ j < m" using less.prems True by (auto simp: less_Suc_eq)
    ultimately obtain k where "grow_size (2 ^ Suc i) m = Some (2 ^ k)" "m \<le> 2 ^ k"
      "\<forall>j<k. (2::int) ^ j < m" using less.hyps[of "Suc i"] by blast
    then show ?thesis using step by auto
  qed
qed

lemma grow_size_1:
  "\<exists>k. grow_size 1 m = Some (2 ^ k) \<and> m \<le> 2 ^ k \<and> (\<forall>n. IsPowerOfTwo n \<and> m \<le> n \<longrightarrow> 2 ^ k \<le> n)"
proof -
  from grow_size_pow2[of 0 m] obtain k where k: "grow_size 1 m = Some (2 ^ k)" "m \<le> 2 ^ k"
    "\<forall>j<k. (2::int) ^ j < m" by auto
  have "2 ^ k \<le> n" if "IsPowerOfTwo n \<and> m \<le> n" for n
  proof -
    from IsPowerOfTwo_pow2 that obtain k' where k': "n = 2 ^ k'" by blast
    have "\<not> k' < k" using k(3) that k' by auto
    then have "k \<le> k'" by simp
    then show ?thesis using k' by (simp add: power_increasing)
  qed
  then show ?thesis using k by blast
qed

lemma rectangular_in_grid:
  assumes "rectangular img"
  shows "in_grid (data img) a e \<longleftrightarrow> 0 \<le> a \<and> a < width img \<and> 0 \<le> e \<and> e < height img"
proof -
  have "int (length (data img ! nat e)) = width img" if "0 \<le> e" "e < height img"
  proof -
    have "nat e < length (data img)" using that by (simp add: height_def)
    then have "data img ! nat e \<in> set (data img)" by simp
    then show ?thesis using assms by (simp add: rectangular_def)
  qed
  then show ?thesis by (auto simp: in_grid_def height_def)
qed

lemma PadToSquare_eq:
  assumes "rectangular input"
  shows "\<exists>k padded. PadToSquare input = Some (Inr padded) \<and>
           max (width input) (height input) \<le> 2 ^ k \<and>
           (\<forall>n. IsPowerOfTwo n \<and> max (width input) (height input) \<le> n \<longrightarrow> 2 ^ k \<le> n) \<and>
           w_rec padded = width input \<and> h_rec padded = height input \<and>
           map length (data padded) = replicate (nat (2 ^ k)) (nat (2 ^ k)) \<and>
           (\<forall>a e. 0 \<le> a \<and> a < 2 ^ k \<and> 0 \<le> e \<and> e < 2 ^ k \<longrightarrow>
              cell (data padded) a e =
                (if a < width input \<and> e < height input then cell (data input) a e else black))"
proof -
  define w where "w = width input"
  define h where "h = height input"
  from grow_size_1[of "max w h"] obtain k where k: "grow_size 1 (max w h) = Some (2 ^ k)"
    "max w h \<le> 2 ^ k" "\<forall>n. IsPowerOfTwo n \<and> max w h \<le> n \<longrightarrow> 2 ^ k \<le> n" by blast
  define S :: int where "S = 2 ^ k"
  have S: "0 < S" "w \<le> S" "h \<le> S" using k(2) by (simp_all add: S_def)
  define p0 where "p0 = \<lparr>data = replicate (nat S) (replicate (nat S) black), w_rec = S, h_rec = S\<rparr>"
  define t0 where "t0 = p0\<lparr>w_rec := w, h_rec := h\<rparr>"
  define body where "body = (\<lambda>(y::int) x p.
                 case Image_at input x y of
                   Inl e \<Rightarrow> Inl e
                 | Inr c \<Rightarrow> Image_put p x y c)"
  define f where "f = (\<lambda>x y. cell (data input) x y)"
  have new: "Image_new S S = Inr p0" using S by (simp add: Image_new_def p0_def)
  have pad: "PadToSquare input = Some (for_loop 0 h (\<lambda>y. for_loop 0 w (body y)) t0)"
    using k(1) new
    by (simp add: PadToSquare_def Let_def body_def t0_def flip: w_def h_def S_def)
  have bd: "body y x t = Image_put t x y (f x y)" if "0 \<le> x" "x < w" "0 \<le> y" "y < h" for x y t
  proof -
    have "in_grid (data input) x y" using that by (simp add: rectangular_in_grid[OF assms] w_def h_def)
    then show ?thesis by (simp add: body_def f_def Image_at_def read_at_in)
  qed
  have gr: "\<forall>y\<in>{0..<h}. \<forall>x\<in>{0..<w}. in_grid (data t0) x y"
    using S by (simp add: t0_def p0_def in_grid_replicate)
  from fill_image[of w 0 h body f t0, OF bd gr] obtain out where out:
    "for_loop 0 h (\<lambda>y. for_loop 0 w (body y)) t0 = Inr out" "out = t0\<lparr>data := data out\<rparr>"
    "map length (data out) = map length (data t0)"
    "\<forall>a e. in_grid (data t0) a e \<longrightarrow>
        cell (data out) a e =
          (if 0 \<le> e \<and> e < h \<and> 0 \<le> a \<and> a < w then f a e else cell (data t0) a e)"
    by blast
  have rec: "w_rec out = w" "h_rec out = h"
    by (subst out(2), simp add: t0_def)+
  have len: "map length (data out) = replicate (nat S) (nat S)"
    using out(3) by (simp add: t0_def p0_def)
  have cells: "cell (data out) a e = (if a < w \<and> e < h then cell (data input) a e else black)"
    if "0 \<le> a \<and> a < S \<and> 0 \<le> e \<and> e < S" for a e
  proof -
    have g: "in_grid (data t0) a e" using that by (simp add: t0_def p0_def in_grid_replicate)
    have "cell (data t0) a e = black" using that by (simp add: t0_def p0_def cell_replicate)
    then show ?thesis using out(4) g that by (simp add: f_def)
  qed
  have "PadToSquare input = Some (Inr out)" using pad out(1) by simp
  moreover have "\<forall>a e. 0 \<le> a \<and> a < S \<and> 0 \<le> e \<and> e < S \<longrightarrow>
      cell (data out) a e = (if a < w \<and> e < h then cell (data input) a e else black)"
    using cells by blast
  ultimately show ?thesis
    using k(2,3) rec len unfolding w_def h_def S_def
    by (intro exI[of _ k] exI[of _ out]) simp
qed

lemma shape_in_grid:
  assumes "map length d = replicate (nat h) (nat w)"
  shows "in_grid d a e \<longleftrightarrow> 0 \<le> a \<and> a < w \<and> 0 \<le> e \<and> e < h"
proof -
  have "map length d = map length (replicate (nat h) (replicate (nat w) black))"
    using assms by simp
  from in_grid_shape[OF this] show ?thesis by (simp add: in_grid_replicate)
qed

lemma shape_square: "map length d = replicate (nat n) (nat n) \<Longrightarrow> 0 \<le> n \<Longrightarrow> square_grid d n"
proof -
  assume a: "map length d = replicate (nat n) (nat n)" and n: "0 \<le> n"
  have "length d = nat n" using a by (metis length_map length_replicate)
  moreover have "length row = nat n" if "row \<in> set d" for row
  proof -
    have "length row \<in> set (map length d)" using that by simp
    then show ?thesis using a by simp
  qed
  ultimately show ?thesis using n by (simp add: square_grid_def)
qed

lemma rectangular_shape:
  assumes "rectangular img"
  shows "map length (data img) = replicate (nat (height img)) (nat (width img))"
proof (rule replicate_eqI)
  show "length (map length (data img)) = nat (height img)" by (simp add: height_def)
  fix n assume "n \<in> set (map length (data img))"
  then obtain row where "row \<in> set (data img)" "n = length row" by auto
  then show "n = nat (width img)" using assms by (auto simp: rectangular_def)
qed

subsection \<open>PadToSquare and Resize\<close>

text \<open>
  C5: for every rectangular grid of width \<open>W\<close> and height \<open>H\<close>, \<open>PadToSquare\<close> returns a square
  grid of side \<open>S\<close>, where \<open>S\<close> is a power of two, at least 1 and at least \<open>max W H\<close>, and no
  power of two at least \<open>max W H\<close> is smaller; the cells with \<open>x < W\<close> and \<open>y < H\<close> are those
  of the source and every other cell is (0,0,0). A 3 by 5 input gives side 8, and for an
  input that is already a power-of-two square the side and the data are those of the
  input. The result records the original \<open>W\<close> and \<open>H\<close> in \<open>w_\<close> and \<open>h_\<close>.
\<close>

theorem PadToSquare_pads:
  assumes "rectangular input"
  shows "\<exists>S padded. PadToSquare input = Some (Inr padded) \<and>
           IsPowerOfTwo S \<and> 1 \<le> S \<and> max (width input) (height input) \<le> S \<and>
           (\<forall>n. IsPowerOfTwo n \<and> max (width input) (height input) \<le> n \<longrightarrow> S \<le> n) \<and>
           square_grid (data padded) S \<and>
           w_rec padded = width input \<and> h_rec padded = height input \<and>
           (\<forall>y\<in>{0..<S}. \<forall>x\<in>{0..<S}.
              cell (data padded) x y =
                (if x < width input \<and> y < height input then cell (data input) x y else black)) \<and>
           (width input = 3 \<and> height input = 5 \<longrightarrow> S = 8) \<and>
           (IsValidImageSize input \<longrightarrow> S = width input \<and> data padded = data input)"
proof -
  from PadToSquare_eq[OF assms] obtain k padded where p:
    "PadToSquare input = Some (Inr padded)"
    "max (width input) (height input) \<le> 2 ^ k"
    "\<forall>n. IsPowerOfTwo n \<and> max (width input) (height input) \<le> n \<longrightarrow> 2 ^ k \<le> n"
    "w_rec padded = width input" "h_rec padded = height input"
    "map length (data padded) = replicate (nat (2 ^ k)) (nat (2 ^ k))"
    "\<forall>a e. 0 \<le> a \<and> a < 2 ^ k \<and> 0 \<le> e \<and> e < 2 ^ k \<longrightarrow>
       cell (data padded) a e =
         (if a < width input \<and> e < height input then cell (data input) a e else black)"
    by blast
  define S :: int where "S = 2 ^ k"
  have pow: "IsPowerOfTwo S" unfolding S_def by (rule pow2_IsPowerOfTwo)
  have one: "1 \<le> S" by (simp add: S_def)
  have sq: "square_grid (data padded) S" using p(6) by (simp add: S_def shape_square)
  have cells: "\<forall>y\<in>{0..<S}. \<forall>x\<in>{0..<S}.
              cell (data padded) x y =
                (if x < width input \<and> y < height input then cell (data input) x y else black)"
    using p(7) by (simp add: S_def)
  have eight: "S = 8" if "width input = 3 \<and> height input = 5"
  proof -
    have "IsPowerOfTwo 8" using pow2_IsPowerOfTwo[of 3] by simp
    then have le: "S \<le> 8" using p(3) that by (simp add: S_def)
    have ge: "5 \<le> S" using p(2) that by (simp add: S_def)
    have "(2::int) ^ k \<le> 2 ^ 3" using le by (simp add: S_def)
    then have k3: "k \<le> 3" by (rule power_le_imp_le_exp[rotated]) simp
    have "\<not> k \<le> 2"
    proof
      assume "k \<le> 2"
      then have "(2::int) ^ k \<le> 2 ^ 2" by (intro power_increasing) simp_all
      then show False using ge by (simp add: S_def)
    qed
    then have "k = 3" using k3 by simp
    then show ?thesis by (simp add: S_def)
  qed
  have ident: "S = width input \<and> data padded = data input" if v: "IsValidImageSize input"
  proof -
    have wh: "width input = height input" and pw: "IsPowerOfTwo (width input)"
      using v unfolding IsValidImageSize_def by blast+
    have "S \<le> width input" using p(3) pw wh by (simp add: S_def)
    moreover have "width input \<le> S" using p(2) by (simp add: S_def)
    ultimately have S: "S = width input" by simp
    have sh: "map length (data input) = replicate (nat S) (nat S)"
      using rectangular_shape[OF assms] wh S by simp
    have "data padded = data input"
    proof (rule grid_eqI)
      show "map length (data padded) = map length (data input)" using p(6) sh by (simp add: S_def)
      fix a e assume "in_grid (data input) a e"
      then have ae: "0 \<le> a \<and> a < S \<and> 0 \<le> e \<and> e < S" by (simp add: shape_in_grid[OF sh])
      then show "cell (data padded) a e = cell (data input) a e"
        using p(7) S wh by (simp add: S_def)
    qed
    then show ?thesis using S by simp
  qed
  show ?thesis
    using p(1,2,3,4,5) pow one sq cells eight ident unfolding S_def[symmetric]
    by (intro exI[of _ S] exI[of _ padded]) simp
qed

theorem PadToSquare_pads_witness:
  "rectangular \<lparr>data = [[\<lparr>r = 1, g = 2, b = 3\<rparr>, black, \<lparr>r = 1, g = 2, b = 3\<rparr>],
                         [black, black, black], [black, black, black], [black, black, black],
                         [black, black, \<lparr>r = 7, g = 8, b = 9\<rparr>]], w_rec = 3, h_rec = 5\<rparr> \<and>
   (\<exists>padded.
      PadToSquare \<lparr>data = [[\<lparr>r = 1, g = 2, b = 3\<rparr>, black, \<lparr>r = 1, g = 2, b = 3\<rparr>],
                         [black, black, black], [black, black, black], [black, black, black],
                         [black, black, \<lparr>r = 7, g = 8, b = 9\<rparr>]], w_rec = 3, h_rec = 5\<rparr> =
        Some (Inr padded) \<and>
      square_grid (data padded) 8 \<and>
      cell (data padded) 2 4 = \<lparr>r = 7, g = 8, b = 9\<rparr> \<and> cell (data padded) 3 4 = black)"
proof -
  let ?I = "\<lparr>data = [[\<lparr>r = 1, g = 2, b = 3\<rparr>, black, \<lparr>r = 1, g = 2, b = 3\<rparr>],
                         [black, black, black], [black, black, black], [black, black, black],
                         [black, black, \<lparr>r = 7, g = 8, b = 9\<rparr>]], w_rec = 3, h_rec = 5\<rparr>"
  have wh: "width ?I = 3" "height ?I = 5" by (simp_all add: width_def height_def)
  have h: "rectangular ?I" by (simp add: rectangular_def width_def)
  from PadToSquare_pads[OF h] obtain S padded where p:
    "PadToSquare ?I = Some (Inr padded)" "square_grid (data padded) S"
    "\<forall>y\<in>{0..<S}. \<forall>x\<in>{0..<S}.
        cell (data padded) x y =
          (if x < width ?I \<and> y < height ?I then cell (data ?I) x y else black)"
    "width ?I = 3 \<and> height ?I = 5 \<longrightarrow> S = 8"
    by blast
  have S: "S = 8" using p(4) wh by blast
  have sq: "square_grid (data padded) 8" using p(2) S by simp
  have "cell (data padded) 2 4 = (if 2 < width ?I \<and> 4 < height ?I then cell (data ?I) 2 4 else black)"
    using p(3) S by simp
  then have c1: "cell (data padded) 2 4 = \<lparr>r = 7, g = 8, b = 9\<rparr>"
    by (simp add: wh cell_def)
  have "cell (data padded) 3 4 = (if 3 < width ?I \<and> 4 < height ?I then cell (data ?I) 3 4 else black)"
    using p(3) S by simp
  then have c2: "cell (data padded) 3 4 = black" by (simp add: wh)
  show ?thesis by (intro conjI exI[of _ padded]) (rule h p(1) sq c1 c2)+
qed

text \<open>
  C6: for every rectangular grid \<open>G\<close>, \<open>Resize\<close> of \<open>PadToSquare G\<close> to the width and height of
  \<open>G\<close> returns the data of \<open>G\<close> exactly, with that width and height recorded.
\<close>

theorem PadToSquare_then_Resize:
  assumes "rectangular G"
  shows "\<exists>padded out. PadToSquare G = Some (Inr padded) \<and>
           Resize padded (width G) (height G) = Inr out \<and>
           data out = data G \<and> w_rec out = width G \<and> h_rec out = height G"
proof -
  from PadToSquare_eq[OF assms] obtain k padded where p:
    "PadToSquare G = Some (Inr padded)"
    "max (width G) (height G) \<le> 2 ^ k"
    "w_rec padded = width G" "h_rec padded = height G"
    "map length (data padded) = replicate (nat (2 ^ k)) (nat (2 ^ k))"
    "\<forall>a e. 0 \<le> a \<and> a < 2 ^ k \<and> 0 \<le> e \<and> e < 2 ^ k \<longrightarrow>
       cell (data padded) a e =
         (if a < width G \<and> e < height G then cell (data G) a e else black)"
    by blast
  have nn: "0 \<le> width G" "0 \<le> height G" by (simp_all add: width_def height_def)
  have rd: "recorded_in_data padded"
    using p(2) by (simp add: recorded_in_data_def p(3,4) shape_in_grid[OF p(5)])
  from Resize_eq[OF nn rd] obtain out where out:
    "Resize padded (width G) (height G) = Inr out" "w_rec out = width G" "h_rec out = height G"
    "map length (data out) = replicate (nat (height G)) (nat (width G))"
    "\<forall>a e. 0 \<le> a \<and> a < width G \<and> 0 \<le> e \<and> e < height G \<longrightarrow>
       cell (data out) a e =
         (if a < w_rec padded \<and> e < h_rec padded then cell (data padded) a e else black)"
    by blast
  have "data out = data G"
  proof (rule grid_eqI)
    show "map length (data out) = map length (data G)"
      using out(4) rectangular_shape[OF assms] by simp
    fix a e assume "in_grid (data G) a e"
    then have ae: "0 \<le> a \<and> a < width G \<and> 0 \<le> e \<and> e < height G"
      by (simp add: rectangular_in_grid[OF assms])
    then have "cell (data out) a e = cell (data padded) a e" using out(5) p(3,4) by simp
    moreover have "cell (data padded) a e = cell (data G) a e" using p(6) p(2) ae by simp
    ultimately show "cell (data out) a e = cell (data G) a e" by simp
  qed
  then show ?thesis using p(1) out(1,2,3) by blast
qed

theorem PadToSquare_then_Resize_witness:
  "rectangular \<lparr>data = [[\<lparr>r = 1, g = 2, b = 3\<rparr>, \<lparr>r = 4, g = 5, b = 6\<rparr>, \<lparr>r = 7, g = 8, b = 9\<rparr>]],
                 w_rec = 3, h_rec = 1\<rparr> \<and>
   (\<exists>padded out.
      PadToSquare \<lparr>data = [[\<lparr>r = 1, g = 2, b = 3\<rparr>, \<lparr>r = 4, g = 5, b = 6\<rparr>, \<lparr>r = 7, g = 8, b = 9\<rparr>]],
                   w_rec = 3, h_rec = 1\<rparr> = Some (Inr padded) \<and>
      Resize padded 3 1 = Inr out \<and>
      data out = [[\<lparr>r = 1, g = 2, b = 3\<rparr>, \<lparr>r = 4, g = 5, b = 6\<rparr>, \<lparr>r = 7, g = 8, b = 9\<rparr>]])"
proof -
  let ?G = "\<lparr>data = [[\<lparr>r = 1, g = 2, b = 3\<rparr>, \<lparr>r = 4, g = 5, b = 6\<rparr>, \<lparr>r = 7, g = 8, b = 9\<rparr>]],
                 w_rec = 3, h_rec = 1\<rparr>"
  have wh: "width ?G = 3" "height ?G = 1" by (simp_all add: width_def height_def)
  have h: "rectangular ?G" by (simp add: rectangular_def width_def)
  from PadToSquare_then_Resize[OF h] obtain padded out where p:
    "PadToSquare ?G = Some (Inr padded)" "Resize padded (width ?G) (height ?G) = Inr out"
    "data out = data ?G"
    by blast
  have r: "Resize padded 3 1 = Inr out" using p(2) by (simp only: wh)
  have d: "data out = [[\<lparr>r = 1, g = 2, b = 3\<rparr>, \<lparr>r = 4, g = 5, b = 6\<rparr>, \<lparr>r = 7, g = 8, b = 9\<rparr>]]"
    using p(3) by simp
  show ?thesis by (intro conjI exI[of _ padded] exI[of _ out]) (rule h p(1) r d)+
qed

text \<open>
  C9: for every image whose recorded \<open>w_\<close> by \<open>h_\<close> rectangle lies within its data and all
  \<open>w\<close> and \<open>h\<close> that are not negative, also beyond the recorded dimensions, \<open>Resize\<close> raises no
  error and returns a grid of \<open>h\<close> rows of \<open>w\<close> cells: the cells with \<open>x < w_\<close> and \<open>y < h_\<close> are
  those of the source and every other cell is (0,0,0).
\<close>

theorem Resize_oversized:
  assumes "0 \<le> w" and "0 \<le> h" and "recorded_in_data img"
  shows "\<exists>out. Resize img w h = Inr out \<and> w_rec out = w \<and> h_rec out = h \<and>
           height out = h \<and> (\<forall>row\<in>set (data out). int (length row) = w) \<and>
           (\<forall>y\<in>{0..<h}. \<forall>x\<in>{0..<w}.
              cell (data out) x y =
                (if x < w_rec img \<and> y < h_rec img then cell (data img) x y else black))"
proof -
  from Resize_eq[OF assms] obtain out where out:
    "Resize img w h = Inr out" "w_rec out = w" "h_rec out = h"
    "map length (data out) = replicate (nat h) (nat w)"
    "\<forall>a e. 0 \<le> a \<and> a < w \<and> 0 \<le> e \<and> e < h \<longrightarrow>
       cell (data out) a e =
         (if a < w_rec img \<and> e < h_rec img then cell (data img) a e else black)"
    by blast
  have "length (data out) = nat h" using out(4) by (metis length_map length_replicate)
  then have hh: "height out = h" using assms(2) by (simp add: height_def)
  have rows: "int (length row) = w" if "row \<in> set (data out)" for row
  proof -
    have "length row \<in> set (map length (data out))" using that by simp
    then show ?thesis using out(4) assms(1) by simp
  qed
  show ?thesis using out(1,2,3,5) hh rows by (intro exI[of _ out]) simp
qed

theorem Resize_oversized_witness:
  "(0::int) \<le> 2 \<and> recorded_in_data \<lparr>data = [[\<lparr>r = 1, g = 2, b = 3\<rparr>]], w_rec = 1, h_rec = 1\<rparr> \<and>
   (\<exists>out. Resize \<lparr>data = [[\<lparr>r = 1, g = 2, b = 3\<rparr>]], w_rec = 1, h_rec = 1\<rparr> 2 2 = Inr out \<and>
      height out = 2 \<and> cell (data out) 0 0 = \<lparr>r = 1, g = 2, b = 3\<rparr> \<and>
      cell (data out) 1 0 = black \<and> cell (data out) 1 1 = black)"
proof -
  let ?I = "\<lparr>data = [[\<lparr>r = 1, g = 2, b = 3\<rparr>]], w_rec = 1, h_rec = 1\<rparr>"
  have n: "(0::int) \<le> 2" by simp
  have h: "recorded_in_data ?I" by (simp add: recorded_in_data_def in_grid_def int_range_unfold)
  from Resize_oversized[OF n n h] obtain out where p:
    "Resize ?I 2 2 = Inr out" "height out = 2"
    "\<forall>y\<in>{0..<2}. \<forall>x\<in>{0..<2}.
        cell (data out) x y =
          (if x < w_rec ?I \<and> y < h_rec ?I then cell (data ?I) x y else black)"
    by blast
  have c0: "cell (data out) 0 0 = \<lparr>r = 1, g = 2, b = 3\<rparr>"
    using p(3) by (simp add: int_range_unfold cell_def)
  have c1: "cell (data out) 1 0 = black" using p(3) by (simp add: int_range_unfold)
  have c2: "cell (data out) 1 1 = black" using p(3) by (simp add: int_range_unfold)
  show ?thesis by (intro conjI exI[of _ out]) (rule n h p(1) p(2) c0 c1 c2)+
qed

text \<open>A negative width or height makes the constructor of the result throw.\<close>

lemma Resize_negative: "w < 0 \<or> h < 0 \<Longrightarrow> Resize img w h = Inl LengthError"
  by (simp add: Resize_def Image_new_def)

subsection \<open>The range of the integers\<close>

lemma grow_size_range:
  assumes "grow_size 1 m = Some S"
  shows "1 \<le> S \<and> (S = 1 \<or> S < 2 * m)"
proof -
  from grow_size_pow2[of 0 m] obtain k where k: "grow_size 1 m = Some (2 ^ k)"
    "\<forall>j<k. (2::int) ^ j < m" by auto
  have S: "S = 2 ^ k" using assms k(1) by simp
  show ?thesis
  proof (cases k)
    case 0
    then show ?thesis using S by simp
  next
    case (Suc j)
    then have "(2::int) ^ j < m" using k(2) by simp
    moreover have "(1::int) \<le> 2 ^ k" by simp
    ultimately show ?thesis using S Suc by simp
  qed
qed

subsection \<open>PadToSquare on the empty image\<close>

text \<open>
  C10: \<open>PadToSquare\<close> applied to an empty (0 by 0) grid returns a 1 by 1 grid whose single cell
  is the colour (0,0,0): the side computed by the doubling loop is 1 although the larger
  dimension is 0, and the cell allocated by \<open>Image(size, size)\<close> is value-initialised to
  zero. The fields \<open>w_\<close> and \<open>h_\<close> of the result record the original 0 by 0.
\<close>

theorem PadToSquare_empty:
  "PadToSquare \<lparr>data = [], w_rec = a, h_rec = c\<rparr> =
     Some (Inr \<lparr>data = [[\<lparr>r = 0, g = 0, b = 0\<rparr>]], w_rec = 0, h_rec = 0\<rparr>)"
  by (simp add: PadToSquare_def height_def width_def grow_size.simps Image_new_def
      black_def for_loop_done)

end
